theory Spec2Isabelle
  imports Complex_Main "HOL-Library.Sublist" "HOL-Library.Multiset" "HOL-Library.Product_Lexorder"
begin

section \<open>Python primitives used by the redaction engine\<close>

text \<open>
  A Python \<open>str\<close> is a sequence of Unicode code points, and \<open>len\<close>, slicing and the
  offsets of the detectors count code points: a text is the list of its code points. \<open>py\<close>
  turns a literal into such a list, \<open>cp\<close> is \<open>ord\<close> of one character.
\<close>

type_synonym codepoint = int

type_synonym pystr = "codepoint list"

definition cp :: "char \<Rightarrow> codepoint" where
  "cp c = of_char c"

definition py :: "string \<Rightarrow> pystr" where
  "py s = map cp s"

text \<open>
  Offsets are Python integers (\<open>int\<close>); a slice clamps its bounds the way Python does, a
  negative bound counting from the end of the text.
\<close>

definition py_index :: "nat \<Rightarrow> int \<Rightarrow> nat" where
  "py_index n i = (if i < 0 then nat (max 0 (int n + i)) else min n (nat i))"

definition slice_to :: "pystr \<Rightarrow> int \<Rightarrow> pystr" where
  \<comment> \<open>\<open>s[:j]\<close>\<close>
  "slice_to s j = take (py_index (length s) j) s"

definition slice_from :: "pystr \<Rightarrow> int \<Rightarrow> pystr" where
  \<comment> \<open>\<open>s[i:]\<close>\<close>
  "slice_from s i = drop (py_index (length s) i) s"

definition slice :: "pystr \<Rightarrow> int \<Rightarrow> int \<Rightarrow> pystr" where
  \<comment> \<open>\<open>s[i:j]\<close>; empty when the clamped bounds cross\<close>
  "slice s i j =
     (let a = py_index (length s) i; b = py_index (length s) j
      in take (b - a) (drop a s))"

text \<open>
  \<open>str.replace(old, new)\<close>: the occurrences of \<open>old\<close> are found left to right and do not
  overlap. An empty \<open>old\<close> matches before every character and at the end.
\<close>

function repl :: "pystr \<Rightarrow> pystr \<Rightarrow> pystr \<Rightarrow> pystr" where
  "repl old new [] = []"
| "repl old new (c # cs) =
     (if old \<noteq> [] \<and> prefix old (c # cs)
      then new @ repl old new (drop (length old) (c # cs))
      else c # repl old new cs)"
  by pat_completeness auto
termination
  by (relation "measure (\<lambda>(old, new, s). length s)") (auto simp: neq_Nil_conv)

definition str_replace :: "pystr \<Rightarrow> pystr \<Rightarrow> pystr \<Rightarrow> pystr" where
  "str_replace s old new =
     (if old = [] then new @ concat (map (\<lambda>c. c # new) s) else repl old new s)"

text \<open>
  The decimal digits of Unicode (general category Nd) are what \<open>\d\<close> matches in a
  \<open>str\<close> pattern and what \<open>int\<close> reads. They come in runs of ten consecutive code
  points, a digit's value being its distance from the first of its run. The table lists the
  first code point of every run, as of Unicode 15 (the database of Python 3.12 and 3.13).
\<close>

definition decimal_zeros :: "codepoint list" where
  "decimal_zeros =
     [0x30, 0x660, 0x6F0, 0x7C0, 0x966, 0x9E6, 0xA66, 0xAE6, 0xB66, 0xBE6, 0xC66, 0xCE6,
      0xD66, 0xDE6, 0xE50, 0xED0, 0xF20, 0x1040, 0x1090, 0x17E0, 0x1810, 0x1946, 0x19D0,
      0x1A80, 0x1A90, 0x1B50, 0x1BB0, 0x1C40, 0x1C50, 0xA620, 0xA8D0, 0xA900, 0xA9D0,
      0xA9F0, 0xAA50, 0xABF0, 0xFF10,
      0x104A0, 0x10D30, 0x11066, 0x110F0, 0x11136, 0x111D0, 0x112F0, 0x11450, 0x114D0,
      0x11650, 0x116C0, 0x11730, 0x118E0, 0x11950, 0x11C50, 0x11D50, 0x11DA0, 0x11F50,
      0x16A60, 0x16AC0, 0x16B50,
      0x1D7CE, 0x1D7D8, 0x1D7E2, 0x1D7EC, 0x1D7F6,
      0x1E140, 0x1E2F0, 0x1E4F0, 0x1E950, 0x1FBF0]"

definition decimal_value :: "codepoint \<Rightarrow> nat option" where
  "decimal_value c =
     (case filter (\<lambda>z. z \<le> c \<and> c < z + 10) decimal_zeros of
        [] \<Rightarrow> None
      | z # _ \<Rightarrow> Some (nat (c - z)))"

definition is_digit :: "codepoint \<Rightarrow> bool" where
  "is_digit c = (decimal_value c \<noteq> None)"

definition digit_val :: "codepoint \<Rightarrow> nat" where
  "digit_val c = (case decimal_value c of Some d \<Rightarrow> d | None \<Rightarrow> 0)"

text \<open>Decimal rendering \<open>str(n)\<close> of a non-negative integer, in ASCII digits.\<close>

definition digit_char :: "nat \<Rightarrow> codepoint" where
  "digit_char d = 48 + int d"

fun str_nat :: "nat \<Rightarrow> pystr" where
  "str_nat n = (if n < 10 then [digit_char n] else str_nat (n div 10) @ [digit_char (n mod 10)])"

declare str_nat.simps [simp del]

text \<open>
  \<open>int(s)\<close> on a run of decimal digits, the only strings the seeding loop passes to it.
  The interpreter refuses a string of more than \<open>sys.int_info.default_max_str_digits\<close>
  digits with a \<open>ValueError\<close>.
\<close>

definition int_of_digits :: "pystr \<Rightarrow> nat" where
  "int_of_digits s = foldl (\<lambda>n c. 10 * n + digit_val c) 0 s"

definition INT_MAX_STR_DIGITS :: nat where
  "INT_MAX_STR_DIGITS = 4300"

datatype py_exception =
    HTTPException (status_code: nat) (invalid_entities: "pystr list")
  | ValueError

definition int_str :: "pystr \<Rightarrow> py_exception + nat" where
  "int_str s = (if length s > INT_MAX_STR_DIGITS then Inl ValueError else Inr (int_of_digits s))"

text \<open>
  A \<open>dict[str, str]\<close> keeps its keys in insertion order, and both the seeding loop and the
  restorer's sort see that order: it is an association list with distinct keys. Assigning to
  a key that is present keeps its position.
\<close>

type_synonym pydict = "(pystr \<times> pystr) list"

definition dict_get :: "pydict \<Rightarrow> pystr \<Rightarrow> pystr option" where
  "dict_get d k = map_of d k"

fun dict_set :: "pydict \<Rightarrow> pystr \<Rightarrow> pystr \<Rightarrow> pydict" where
  "dict_set [] k v = [(k, v)]"
| "dict_set ((k', v') # d) k v =
     (if k' = k then (k', v) # d else (k', v') # dict_set d k v)"

definition dict_keys :: "pydict \<Rightarrow> pystr list" where
  "dict_keys d = map fst d"

section \<open>Entity types\<close>

definition PRESIDIO_ENTITIES :: "pystr list" where
  "PRESIDIO_ENTITIES =
     [py ''PERSON'', py ''EMAIL_ADDRESS'', py ''CREDIT_CARD'', py ''PHONE_NUMBER'', py ''US_SSN'',
      py ''IP_ADDRESS'', py ''URL'', py ''LOCATION'',
      py ''GOVERNMENT_ID'', py ''FINANCIAL_ID'', py ''TECHNICAL_ID'', py ''MEDICAL_ID'',
      py ''SECURITY_DATA'', py ''VEHICLE_ID'', py ''DEMOGRAPHIC_DATA'']"

definition MIN_THRESHOLD :: rat where
  "MIN_THRESHOLD = 6 / 10"

section \<open>PlaceholderManager\<close>

text \<open>
  \<open>PLACEHOLDER_REGEX = <([A-Z0-9_]+)_(\d+)>\<close>, used with \<open>fullmatch\<close>. The digits of the
  second group hold no underscore, so the only split the backtracking matcher can reach is
  at the last underscore of the text between the angle brackets.
\<close>

definition is_entity_char :: "codepoint \<Rightarrow> bool" where
  "is_entity_char c = (c \<in> set (py ''ABCDEFGHIJKLMNOPQRSTUVWXYZ0123456789_''))"

definition split_last_underscore :: "pystr \<Rightarrow> (pystr \<times> pystr) option" where
  "split_last_underscore body =
     (let tl_digits = takeWhile (\<lambda>c. c \<noteq> cp (CHR ''_'')) (rev body);
          rest = dropWhile (\<lambda>c. c \<noteq> cp (CHR ''_'')) (rev body)
      in case rest of [] \<Rightarrow> None | u # ent \<Rightarrow> Some (rev ent, rev tl_digits))"

definition placeholder_fullmatch :: "pystr \<Rightarrow> (pystr \<times> pystr) option" where
  "placeholder_fullmatch p =
     (case p of
        [] \<Rightarrow> None
      | c # rest \<Rightarrow>
          if c = cp (CHR ''<'') \<and> rest \<noteq> [] \<and> last rest = cp (CHR ''>'')
          then (case split_last_underscore (butlast rest) of
                  None \<Rightarrow> None
                | Some (entity, number_s) \<Rightarrow>
                    if entity \<noteq> [] \<and> list_all is_entity_char entity
                       \<and> number_s \<noteq> [] \<and> list_all is_digit number_s
                    then Some (entity, number_s) else None)
          else None)"

text \<open>
  The three dictionaries of the class. \<open>_entity_counters\<close> is a \<open>defaultdict(int)\<close>, a
  total function that is 0 where nothing was stored; its values never go below 0.
\<close>

record PlaceholderManager =
  placeholder_to_pii :: pydict
  pii_to_placeholder :: "pystr \<times> pystr \<rightharpoonup> pystr"
  entity_counters :: "pystr \<Rightarrow> nat"

definition placeholder_for ::
  "pystr \<Rightarrow> pystr \<Rightarrow> PlaceholderManager \<Rightarrow> pystr \<times> PlaceholderManager" where
  "placeholder_for entity val pm =
     (case pii_to_placeholder pm (entity, val) of
        Some p \<Rightarrow> (p, pm)
      | None \<Rightarrow>
          (let n = entity_counters pm entity + 1;
               placeholder = py ''<'' @ entity @ py ''_'' @ str_nat n @ py ''>''
           in (placeholder,
               pm\<lparr>entity_counters := (entity_counters pm)(entity := n),
                  pii_to_placeholder := (pii_to_placeholder pm)((entity, val) \<mapsto> placeholder),
                  placeholder_to_pii := dict_set (placeholder_to_pii pm) placeholder val\<rparr>)))"

definition mappings :: "PlaceholderManager \<Rightarrow> pydict" where
  "mappings pm = placeholder_to_pii pm"

text \<open>
  The seeding loop over \<open>items()\<close>. It ends with the seeded registry, or with the
  exception that \<open>int\<close> raised; either way the warnings logged so far are returned with
  it, one entry per skipped key.
\<close>

fun initialise_loop ::
  "(pystr \<times> pystr) list \<Rightarrow> PlaceholderManager \<times> pystr list
     \<Rightarrow> (py_exception + PlaceholderManager) \<times> pystr list" where
  "initialise_loop [] (pm, warnings) = (Inr pm, warnings)"
| "initialise_loop ((placeholder, original) # items) (pm, warnings) =
     (case placeholder_fullmatch placeholder of
        None \<Rightarrow> initialise_loop items (pm, warnings @ [placeholder])
      | Some (entity, number_s) \<Rightarrow>
          (case int_str number_s of
             Inl err \<Rightarrow> (Inl err, warnings)
           | Inr number \<Rightarrow>
               initialise_loop items
                 (pm\<lparr>entity_counters :=
                       (entity_counters pm)(entity := max (entity_counters pm entity) number),
                     pii_to_placeholder :=
                       (pii_to_placeholder pm)((entity, original) \<mapsto> placeholder)\<rparr>,
                  warnings)))"

definition initialise_from_existing ::
  "PlaceholderManager \<Rightarrow> (py_exception + PlaceholderManager) \<times> pystr list" where
  "initialise_from_existing pm =
     (if placeholder_to_pii pm = [] then (Inr pm, [])
      else initialise_loop (placeholder_to_pii pm) (pm, []))"

definition PlaceholderManager_init ::
  "pydict option \<Rightarrow> (py_exception + PlaceholderManager) \<times> pystr list" where
  "PlaceholderManager_init existing =
     initialise_from_existing
       \<lparr>placeholder_to_pii = (case existing of None \<Rightarrow> [] | Some d \<Rightarrow> d),
        pii_to_placeholder = Map.empty,
        entity_counters = (\<lambda>_. 0)\<rparr>"

section \<open>Masking engines\<close>

text \<open>What \<open>pyap.parse\<close> reports for one address.\<close>

record Address =
  full_address :: pystr
  match_start :: int
  match_end :: int

fun address_placeholders ::
  "Address list \<Rightarrow> PlaceholderManager \<Rightarrow> (int \<times> int \<times> pystr) list \<times> PlaceholderManager" where
  "address_placeholders [] pm = ([], pm)"
| "address_placeholders (addr # addrs) pm =
     (let (placeholder, pm1) = placeholder_for (py ''LOCATION'') (full_address addr) pm;
          (replacements, pm2) = address_placeholders addrs pm1
      in ((match_start addr, match_end addr, placeholder) # replacements, pm2))"

fun address_rewrite ::
  "(int \<times> int \<times> pystr) list \<Rightarrow> int \<Rightarrow> pystr \<Rightarrow> (int \<times> int) list
     \<Rightarrow> pystr \<times> (int \<times> int) list" where
  "address_rewrite [] offset masked spans = (masked, spans)"
| "address_rewrite ((rep_start, rep_end, placeholder) # replacements) offset masked spans =
     (let start = rep_start + offset;
          end' = rep_end + offset;
          masked' = slice_to masked start @ placeholder @ slice_from masked end'
      in address_rewrite replacements
           (offset + (int (length placeholder) - (rep_end - rep_start)))
           masked'
           (spans @ [(start, start + int (length placeholder))]))"

definition AddressMasker_mask ::
  "(pystr \<Rightarrow> Address list) \<Rightarrow> PlaceholderManager \<Rightarrow> pystr
     \<Rightarrow> (pystr \<times> (int \<times> int) list) \<times> PlaceholderManager" where
  "AddressMasker_mask pyap_parse pm text =
     (let (replacements, pm') = address_placeholders (pyap_parse text) pm
      in (address_rewrite (sort_key fst replacements) 0 text [], pm'))"

record RecognizerResult =
  entity_type :: pystr
  start :: int
  end' :: int
  score :: rat

type_synonym analyzer = "pystr \<Rightarrow> pystr \<Rightarrow> pystr list \<Rightarrow> rat \<Rightarrow> RecognizerResult list"

definition overlaps_any :: "int \<Rightarrow> int \<Rightarrow> (int \<times> int) list \<Rightarrow> bool" where
  "overlaps_any s e spans = list_ex (\<lambda>(ss, ee). max s ss < min e ee) spans"

definition sort_results :: "RecognizerResult list \<Rightarrow> RecognizerResult list" where
  "sort_results results =
     sort_key (\<lambda>r. (start r, - (end' r - start r), - score r)) results"

fun select_chosen ::
  "pystr \<Rightarrow> pydict \<Rightarrow> (int \<times> int) list \<Rightarrow> RecognizerResult list \<Rightarrow> int
     \<Rightarrow> RecognizerResult list" where
  "select_chosen text known exclude_spans [] last_end = []"
| "select_chosen text known exclude_spans (res # results) last_end =
     (if overlaps_any (start res) (end' res) exclude_spans
      then select_chosen text known exclude_spans results last_end
      else if slice text (start res) (end' res) \<in> set (dict_keys known)
      then select_chosen text known exclude_spans results last_end
      else if start res \<ge> last_end
      then res # select_chosen text known exclude_spans results (end' res)
      else select_chosen text known exclude_spans results last_end)"

fun presidio_rewrite ::
  "RecognizerResult list \<Rightarrow> int \<Rightarrow> pystr \<Rightarrow> PlaceholderManager
     \<Rightarrow> pystr \<times> PlaceholderManager" where
  "presidio_rewrite [] offset masked pm = (masked, pm)"
| "presidio_rewrite (res # chosen) offset masked pm =
     (let s = start res + offset;
          e = end' res + offset;
          original_val = slice masked s e;
          (placeholder, pm') = placeholder_for (entity_type res) original_val pm;
          masked' = slice_to masked s @ placeholder @ slice_from masked e
      in presidio_rewrite chosen
           (offset + (int (length placeholder) - int (length original_val)))
           masked' pm')"

definition PresidioMasker_mask ::
  "analyzer \<Rightarrow> PlaceholderManager \<Rightarrow> pystr \<Rightarrow> pystr \<Rightarrow> pystr list \<Rightarrow> (int \<times> int) list
     \<Rightarrow> pystr \<times> PlaceholderManager" where
  "PresidioMasker_mask analyze pm language text entities exclude_spans =
     (if entities = [] then (text, pm)
      else
        (let results = sort_results (analyze text language entities MIN_THRESHOLD);
             chosen = select_chosen text (mappings pm) exclude_spans results (- 1)
         in presidio_rewrite chosen 0 text pm))"

section \<open>The public entry points\<close>

text \<open>
  \<open>mask_sentence\<close> returns its result, or the exception it ends with, and the trace of
  what it logged and which detector it ran on what.
\<close>

datatype event =
    MalformedPlaceholderWarning pystr
  | InvalidEntitiesAlert "pystr list"
  | AddressPass pystr
  | GeneralPass pystr "pystr list"

definition effective_entities :: "pystr list option \<Rightarrow> pystr list" where
  "effective_entities presidio_entities =
     (case presidio_entities of
        None \<Rightarrow> PRESIDIO_ENTITIES
      | Some es \<Rightarrow> if es \<noteq> [] then es else PRESIDIO_ENTITIES)"

definition mask_sentence ::
  "(pystr \<Rightarrow> Address list) \<Rightarrow> pystr \<Rightarrow> analyzer option \<Rightarrow> pystr \<Rightarrow> pystr list option
     \<Rightarrow> pydict option \<Rightarrow> (py_exception + pystr \<times> pydict) \<times> event list" where
  "mask_sentence pyap_parse sentence analyzer language presidio_entities existing_mappings =
     (let invalid =
            (case presidio_entities of
               None \<Rightarrow> []
             | Some es \<Rightarrow> filter (\<lambda>entity. entity \<notin> set PRESIDIO_ENTITIES) es)
      in if invalid \<noteq> [] then (Inl (HTTPException 422 invalid), [InvalidEntitiesAlert invalid])
      else if sentence = [] then (Inr ([], []), [])
      else
        (let (seeded, warnings) = PlaceholderManager_init existing_mappings;
             ev0 = map MalformedPlaceholderWarning warnings
         in case seeded of
              Inl err \<Rightarrow> (Inl err, ev0)
            | Inr pm \<Rightarrow>
                (let entities = effective_entities presidio_entities;
                     ((current_text, address_spans), pm1, ev1) =
                       (if py ''LOCATION'' \<in> set entities
                        then (let (r, pm') = AddressMasker_mask pyap_parse pm sentence
                              in (r, pm', ev0 @ [AddressPass sentence]))
                        else ((sentence, []), pm, ev0));
                     entities1 =
                       (if py ''LOCATION'' \<in> set entities \<and> address_spans \<noteq> []
                        then remove1 (py ''LOCATION'') entities else entities)
                 in case analyzer of
                      Some analyze \<Rightarrow>
                        if entities1 \<noteq> []
                        then (let (text2, pm2) =
                                    PresidioMasker_mask analyze pm1 language current_text
                                      entities1 address_spans
                              in (Inr (text2, mappings pm2),
                                  ev1 @ [GeneralPass current_text entities1]))
                        else (Inr (current_text, mappings pm1), ev1)
                    | None \<Rightarrow> (Inr (current_text, mappings pm1), ev1))))"

definition unmask_sentence :: "pystr \<Rightarrow> pydict \<Rightarrow> pystr" where
  "unmask_sentence masked_data mappings' =
     (if masked_data = [] \<or> mappings' = [] then masked_data
      else foldl (\<lambda>result ph.
                    case dict_get mappings' ph of
                      Some v \<Rightarrow> str_replace result ph v
                    | None \<Rightarrow> result)
             masked_data
             (sort_key (\<lambda>ph. - int (length ph)) (dict_keys mappings')))"

section \<open>Auxiliary notions for the statements\<close>

text \<open>The events of a trace that are detector runs.\<close>

definition is_detection :: "event \<Rightarrow> bool" where
  "is_detection ev = (case ev of AddressPass _ \<Rightarrow> True | GeneralPass _ _ \<Rightarrow> True | _ \<Rightarrow> False)"

text \<open>Any sequence of \<open>placeholder_for\<close> calls made on one registry, results dropped.\<close>

fun placeholder_calls :: "(pystr \<times> pystr) list \<Rightarrow> PlaceholderManager \<Rightarrow> PlaceholderManager" where
  "placeholder_calls [] pm = pm"
| "placeholder_calls ((entity, val) # calls) pm =
     placeholder_calls calls (snd (placeholder_for entity val pm))"

text \<open>Two spans overlap iff \<open>max(s1, s2) < min(e1, e2)\<close>, the test of \<open>_overlaps_any\<close>.\<close>

definition spans_overlap :: "RecognizerResult \<Rightarrow> RecognizerResult \<Rightarrow> bool" where
  "spans_overlap a b = (max (start a) (start b) < min (end' a) (end' b))"

text \<open>The key the candidates are sorted by.\<close>

definition sort_key_of :: "RecognizerResult \<Rightarrow> int \<times> int \<times> rat" where
  "sort_key_of r = (start r, - (end' r - start r), - score r)"

text \<open>A seed key is well formed when the canonical pattern matches the whole of it.\<close>

definition well_formed :: "pystr \<Rightarrow> bool" where
  "well_formed k = (placeholder_fullmatch k \<noteq> None)"

text \<open>
  The well-formed seed keys of one entity type that hold one value, in the order of the
  seed.
\<close>

definition seeded_keys :: "pydict \<Rightarrow> pystr \<Rightarrow> pystr \<Rightarrow> pystr list" where
  "seeded_keys seed entity val =
     map fst
       (filter (\<lambda>(k, v). v = val
                  \<and> (case placeholder_fullmatch k of None \<Rightarrow> False | Some (e, ds) \<Rightarrow> e = entity))
          seed)"

text \<open>
  No well-formed seed key has more digits in its number than \<open>int\<close> accepts.
\<close>

definition suffixes_within_limit :: "pydict \<Rightarrow> bool" where
  "suffixes_within_limit seed =
     list_all (\<lambda>(k, v). case placeholder_fullmatch k of
                          None \<Rightarrow> True
                        | Some (e, ds) \<Rightarrow> length ds \<le> INT_MAX_STR_DIGITS)
       seed"

text \<open>Every well-formed seed key's number is at most the counter of its entity type.\<close>

definition counters_cover :: "pydict \<Rightarrow> PlaceholderManager \<Rightarrow> bool" where
  "counters_cover seed pm =
     (\<forall>(k, v) \<in> set seed. \<forall>e ds. placeholder_fullmatch k = Some (e, ds)
         \<longrightarrow> int_of_digits ds \<le> entity_counters pm e)"

text \<open>
  A span as a pair (start, end) of offsets into a text. The span invariant is
  \<open>0 \<le> start < end \<le> len(text)\<close>; two spans overlap iff
  \<open>max(s1, s2) < min(e1, e2)\<close>. A span list is ordered and pairwise disjoint when every
  span satisfies the invariant, the starts ascend and no two spans overlap.
\<close>

definition overlap :: "int \<times> int \<Rightarrow> int \<times> int \<Rightarrow> bool" where
  "overlap a b = (max (fst a) (fst b) < min (snd a) (snd b))"

definition span_ok :: "pystr \<Rightarrow> int \<times> int \<Rightarrow> bool" where
  "span_ok text p = (0 \<le> fst p \<and> fst p < snd p \<and> snd p \<le> int (length text))"

definition ordered_disjoint :: "pystr \<Rightarrow> (int \<times> int) list \<Rightarrow> bool" where
  "ordered_disjoint text spans =
     (list_all (span_ok text) spans
      \<and> sorted_wrt (\<lambda>a b. fst a \<le> fst b \<and> \<not> overlap a b) spans)"

text \<open>The same, as a chain: each span starts at or after the end of the one before it.\<close>

fun chain :: "int \<Rightarrow> int \<Rightarrow> (int \<times> int) list \<Rightarrow> bool" where
  "chain lo n [] = (lo \<le> n)"
| "chain lo n ((s, e) # spans) = (lo \<le> s \<and> s < e \<and> e \<le> n \<and> chain e n spans)"

text \<open>
  What a rewrite pass has to produce from the text, read from offset \<open>pos\<close> on: the
  characters before each span copied, the span's placeholder in place of the span, and the
  characters after the last span copied.
\<close>

fun splice :: "pystr \<Rightarrow> int \<Rightarrow> (int \<times> int \<times> pystr) list \<Rightarrow> pystr" where
  "splice text pos [] = drop (nat pos) text"
| "splice text pos ((s, e, ph) # reps) =
     take (nat (s - pos)) (drop (nat pos) text) @ ph @ splice text e reps"

text \<open>Where the placeholders of a pass end up in the rewritten text.\<close>

fun shifted_spans :: "int \<Rightarrow> (int \<times> int \<times> pystr) list \<Rightarrow> (int \<times> int) list" where
  "shifted_spans offset [] = []"
| "shifted_spans offset ((s, e, ph) # reps) =
     (s + offset, s + offset + int (length ph))
       # shifted_spans (offset + (int (length ph) - (e - s))) reps"

definition span_of :: "int \<times> int \<times> pystr \<Rightarrow> int \<times> int" where
  "span_of r = (fst r, fst (snd r))"

text \<open>
  The placeholders the general pass asks the registry for, in order: one per chosen span,
  for its entity type and the text it covers.
\<close>

fun assign_placeholders ::
  "RecognizerResult list \<Rightarrow> pystr \<Rightarrow> PlaceholderManager
     \<Rightarrow> (int \<times> int \<times> pystr) list \<times> PlaceholderManager" where
  "assign_placeholders [] text pm = ([], pm)"
| "assign_placeholders (res # chosen) text pm =
     (let (placeholder, pm1) =
            placeholder_for (entity_type res) (slice text (start res) (end' res)) pm;
          (reps, pm2) = assign_placeholders chosen text pm1
      in ((start res, end' res, placeholder) # reps, pm2))"

section \<open>Concrete inputs of the examples\<close>

definition an1 :: analyzer where
  "an1 t l es th = (if py ''PERSON'' \<in> set es
      then [\<lparr>entity_type = py ''PERSON'', start = 11, end' = 19, score = 9/10\<rparr>] else [])"

definition cand_a :: RecognizerResult where
  "cand_a = \<lparr>entity_type = py ''PERSON'', start = 0, end' = 5, score = 9/10\<rparr>"
definition cand_b :: RecognizerResult where
  "cand_b = \<lparr>entity_type = py ''URL'', start = 3, end' = 8, score = 1\<rparr>"
definition cand_c :: RecognizerResult where
  "cand_c = \<lparr>entity_type = py ''US_SSN'', start = 5, end' = 9, score = 7/10\<rparr>"

definition an_ph :: analyzer where
  "an_ph t l es th = [\<lparr>entity_type = py ''PERSON'', start = 3, end' = 13, score = 9/10\<rparr>]"

definition pm_seeded :: PlaceholderManager where
  "pm_seeded =
     \<lparr>placeholder_to_pii = [(py ''<PERSON_1>'', py ''John Doe'')],
      pii_to_placeholder = [(py ''PERSON'', py ''John Doe'') \<mapsto> py ''<PERSON_1>''],
      entity_counters = (\<lambda>_. 0)(py ''PERSON'' := 1)\<rparr>"

definition pm_dup :: PlaceholderManager where
  "pm_dup =
     \<lparr>placeholder_to_pii = [(py ''<PERSON_1>'', py ''Ann''), (py ''<PERSON_2>'', py ''Ann'')],
      pii_to_placeholder = [(py ''PERSON'', py ''Ann'') \<mapsto> py ''<PERSON_2>''],
      entity_counters = (\<lambda>_. 0)(py ''PERSON'' := 2)\<rparr>"

definition seed_ex2 :: pydict where
  "seed_ex2 =
     [(py ''<PERSON_1>'', py ''Ann''), (py ''bad'', py ''x''),
      (py ''<URL_0'' @ [0x667] @ py ''>'', py ''u''), (py ''<PERSON_2>'', py ''Ann'')]"

definition pm_fresh :: PlaceholderManager where
  "pm_fresh =
     \<lparr>placeholder_to_pii = [], pii_to_placeholder = Map.empty, entity_counters = (\<lambda>_. 0)\<rparr>"

definition res_john :: RecognizerResult where
  "res_john = \<lparr>entity_type = py ''PERSON'', start = 11, end' = 19, score = 9/10\<rparr>"

(* END OF DEFINITIONS *)

section \<open>Literals\<close>

text \<open>Unfolding literals: the rules are added where two literals have to be compared.\<close>

lemma cp_eval: "cp c = of_char c"
  by (simp add: cp_def)

lemma py_Nil: "py [] = []"
  by (simp add: py_def)

lemma py_Cons: "py (c # s) = cp c # py s"
  by (simp add: py_def)

lemmas py_simps = py_Nil py_Cons cp_eval

section \<open>What seeding can raise\<close>

lemma int_str_error: "int_str s = Inl err \<Longrightarrow> err = ValueError"
  by (simp add: int_str_def split: if_splits)

lemma initialise_loop_error:
  "fst (initialise_loop items (pm, ws)) = Inl err \<Longrightarrow> err = ValueError"
proof (induction items arbitrary: pm ws)
  case Nil
  then show ?case by simp
next
  case (Cons item items)
  obtain k v where item: "item = (k, v)" by (cases item)
  show ?case
  proof (cases "placeholder_fullmatch k")
    case None
    with Cons.prems show ?thesis unfolding item using Cons.IH by simp
  next
    case (Some m)
    obtain e ds where m: "m = (e, ds)" by (cases m)
    show ?thesis
    proof (cases "int_str ds")
      case (Inl err')
      with Cons.prems Some m have "err = err'" unfolding item by simp
      with Inl show ?thesis using int_str_error by blast
    next
      case (Inr n)
      with Cons.prems Some m show ?thesis unfolding item using Cons.IH by simp
    qed
  qed
qed

lemma PlaceholderManager_init_error:
  "fst (PlaceholderManager_init existing) = Inl err \<Longrightarrow> err = ValueError"
  unfolding PlaceholderManager_init_def initialise_from_existing_def
  using initialise_loop_error by (simp split: if_splits)

section \<open>The registry hands out one token per pair\<close>

lemma placeholder_for_keeps:
  assumes "pii_to_placeholder pm k = Some p"
  shows "pii_to_placeholder (snd (placeholder_for e v pm)) k = Some p"
proof (cases "pii_to_placeholder pm (e, v)")
  case None
  with assms have "k \<noteq> (e, v)" by auto
  with None assms show ?thesis
    unfolding placeholder_for_def Let_def by simp
next
  case (Some a)
  with assms show ?thesis unfolding placeholder_for_def by simp
qed

lemma placeholder_calls_keeps:
  "pii_to_placeholder pm k = Some p \<Longrightarrow> pii_to_placeholder (placeholder_calls cs pm) k = Some p"
proof (induction cs arbitrary: pm)
  case Nil
  then show ?case by simp
next
  case (Cons c cs)
  obtain e v where c: "c = (e, v)" by (cases c)
  from Cons.prems have "pii_to_placeholder (snd (placeholder_for e v pm)) k = Some p"
    by (rule placeholder_for_keeps)
  then show ?case unfolding c by (simp add: Cons.IH)
qed

lemma placeholder_for_records:
  "pii_to_placeholder (snd (placeholder_for e v pm)) (e, v) = Some (fst (placeholder_for e v pm))"
proof (cases "pii_to_placeholder pm (e, v)")
  case None
  then show ?thesis unfolding placeholder_for_def Let_def by simp
next
  case (Some a)
  then show ?thesis unfolding placeholder_for_def by simp
qed

lemma placeholder_for_known:
  "pii_to_placeholder pm (e, v) = Some p \<Longrightarrow> fst (placeholder_for e v pm) = p"
  by (simp add: placeholder_for_def)

lemma PlaceholderManager_init_seeded:
  "PlaceholderManager_init (Some [(py ''<PERSON_1>'', py ''John Doe'')]) = (Inr pm_seeded, [])"
proof -
  have m: "placeholder_fullmatch (py ''<PERSON_1>'') = Some (py ''PERSON'', py ''1'')"
    by code_simp
  have i: "int_str (py ''1'') = Inr 1" by code_simp
  show ?thesis
    unfolding PlaceholderManager_init_def initialise_from_existing_def pm_seeded_def
    by (simp add: m i)
qed

lemma PlaceholderManager_init_fresh: "PlaceholderManager_init None = (Inr pm_fresh, [])"
  by (simp add: PlaceholderManager_init_def initialise_from_existing_def pm_fresh_def)

text \<open>
  C2. Whatever state a registry is in (fresh, seeded, or after any calls), once
  \<open>placeholder_for\<close> has answered for a pair (entity type, value), every later call for that
  pair on the same registry, after any calls in between, returns the same token. A registry
  seeded with \<open><PERSON_1>\<close> for John Doe answers \<open><PERSON_1>\<close> for (PERSON, John Doe).
\<close>

theorem placeholder_for_idempotent:
  "fst (placeholder_for e v (placeholder_calls cs (snd (placeholder_for e v pm))))
     = fst (placeholder_for e v pm)
   \<and> PlaceholderManager_init (Some [(py ''<PERSON_1>'', py ''John Doe'')]) = (Inr pm_seeded, [])
   \<and> fst (placeholder_for (py ''PERSON'') (py ''John Doe'') pm_seeded) = py ''<PERSON_1>''"
proof (intro conjI)
  show "fst (placeholder_for e v (placeholder_calls cs (snd (placeholder_for e v pm))))
          = fst (placeholder_for e v pm)"
    by (rule placeholder_for_known) (rule placeholder_calls_keeps, rule placeholder_for_records)
  show "PlaceholderManager_init (Some [(py ''<PERSON_1>'', py ''John Doe'')]) = (Inr pm_seeded, [])"
    by (rule PlaceholderManager_init_seeded)
  show "fst (placeholder_for (py ''PERSON'') (py ''John Doe'') pm_seeded) = py ''<PERSON_1>''"
    by code_simp
qed

theorem placeholder_for_idempotent_witness:
  "fst (placeholder_for (py ''PERSON'') (py ''Ann'')
     (placeholder_calls [(py ''PERSON'', py ''Bob''), (py ''URL'', py ''Ann'')]
        (snd (placeholder_for (py ''PERSON'') (py ''Ann'') pm_seeded))))
   = py ''<PERSON_2>''"
proof -
  have "fst (placeholder_for (py ''PERSON'') (py ''Ann'') pm_seeded) = py ''<PERSON_2>''"
    by code_simp
  with placeholder_for_idempotent
         [of "py ''PERSON''" "py ''Ann''" "[(py ''PERSON'', py ''Bob''), (py ''URL'', py ''Ann'')]"
             pm_seeded]
  show ?thesis by (simp add: py_simps)
qed

section \<open>Validation and the empty-input fast path\<close>

text \<open>
  C7, as stated: empty input text gives the empty output and the empty mapping for every
  requested entity-types list. It fails: the entity types are validated before the text is
  looked at, so an empty text with an unknown type is rejected.
\<close>

theorem mask_sentence_empty_rejected_counterexample:
  "mask_sentence (\<lambda>_. []) [] None (py ''en'') (Some [py ''BOGUS_TYPE'']) None
     = (Inl (HTTPException 422 [py ''BOGUS_TYPE'']), [InvalidEntitiesAlert [py ''BOGUS_TYPE'']])"
  by code_simp

text \<open>
  C7, amended: when the requested entity types are omitted or all belong to
  \<open>PRESIDIO_ENTITIES\<close>, empty input text gives the empty output and the empty mapping,
  whatever the seed mapping, the detectors and the language are; no detector runs.
\<close>

theorem mask_sentence_empty_valid:
  "(case presidio_entities of None \<Rightarrow> True | Some es \<Rightarrow> set es \<subseteq> set PRESIDIO_ENTITIES)
   \<Longrightarrow> mask_sentence pyap_parse [] analyzer language presidio_entities existing_mappings
        = (Inr ([], []), [])"
  by (auto simp: mask_sentence_def Let_def filter_empty_conv split: option.splits)

theorem mask_sentence_empty_valid_witness:
  "mask_sentence (\<lambda>_. []) [] None (py ''en'') (Some [py ''PERSON'', py ''URL'']) (Some [(py ''<PERSON_1>'', py ''John Doe'')])
        = (Inr ([], []), [])"
  by (rule mask_sentence_empty_valid) (simp add: py_simps PRESIDIO_ENTITIES_def)

text \<open>
  C8. A requested list holding a type outside \<open>PRESIDIO_ENTITIES\<close> is rejected with status
  422, the exception carrying exactly the offending types (the type in question among them);
  the result is the same for every text, seed and detector, and the trace holds no address
  pass and no general pass.
\<close>

theorem mask_sentence_rejects_unknown:
  assumes "e \<in> set es" and "e \<notin> set PRESIDIO_ENTITIES"
  shows "mask_sentence pyap_parse sentence analyzer language (Some es) existing_mappings
           = (Inl (HTTPException 422 (filter (\<lambda>x. x \<notin> set PRESIDIO_ENTITIES) es)),
              [InvalidEntitiesAlert (filter (\<lambda>x. x \<notin> set PRESIDIO_ENTITIES) es)])
         \<and> e \<in> set (filter (\<lambda>x. x \<notin> set PRESIDIO_ENTITIES) es)
         \<and> \<not> list_ex is_detection
               (snd (mask_sentence pyap_parse sentence analyzer language (Some es) existing_mappings))"
proof -
  from assms have "filter (\<lambda>x. x \<notin> set PRESIDIO_ENTITIES) es \<noteq> []"
    by (auto simp: filter_empty_conv)
  with assms show ?thesis
    by (simp add: py_simps mask_sentence_def Let_def is_detection_def)
qed

theorem mask_sentence_rejects_unknown_witness:
  "mask_sentence (\<lambda>_. []) (py ''My name is John Doe'') None (py ''en'') (Some [py ''PERSON'', py ''BOGUS_TYPE'']) None
     = (Inl (HTTPException 422 [py ''BOGUS_TYPE'']), [InvalidEntitiesAlert [py ''BOGUS_TYPE'']])"
proof -
  have a: "py ''BOGUS_TYPE'' \<in> set [py ''PERSON'', py ''BOGUS_TYPE'']" by (simp add: py_simps)
  have b: "py ''BOGUS_TYPE'' \<notin> set PRESIDIO_ENTITIES" by (simp add: py_simps PRESIDIO_ENTITIES_def)
  have c: "filter (\<lambda>x. x \<notin> set PRESIDIO_ENTITIES) [py ''PERSON'', py ''BOGUS_TYPE''] = [py ''BOGUS_TYPE'']"
    by (simp add: py_simps PRESIDIO_ENTITIES_def)
  from mask_sentence_rejects_unknown [OF a b] show ?thesis unfolding c by (simp add: py_simps)
qed

section \<open>An empty list of entity types\<close>

lemma location_default: "py ''LOCATION'' \<in> set PRESIDIO_ENTITIES"
  by (simp add: PRESIDIO_ENTITIES_def)

lemma effective_entities_empty: "effective_entities (Some []) = PRESIDIO_ENTITIES"
  by (simp add: effective_entities_def)

lemma effective_entities_None: "effective_entities None = PRESIDIO_ENTITIES"
  by (simp add: effective_entities_def)

lemma mask_sentence_empty_list:
  "mask_sentence pyap_parse sentence analyzer language (Some []) existing_mappings
     = mask_sentence pyap_parse sentence analyzer language None existing_mappings"
  unfolding mask_sentence_def effective_entities_empty effective_entities_None by simp

lemma mask_sentence_None_error:
  "fst (mask_sentence pyap_parse sentence analyzer language None existing_mappings) = Inl err \<Longrightarrow>
   sentence \<noteq> [] \<and> fst (PlaceholderManager_init existing_mappings) = Inl err"
  unfolding mask_sentence_def effective_entities_None Let_def
  by (simp split: prod.splits option.splits sum.splits if_splits)

lemma mask_sentence_None_not_rejected:
  "fst (mask_sentence pyap_parse sentence analyzer language None existing_mappings)
     \<noteq> Inl (HTTPException code es)"
proof
  assume "fst (mask_sentence pyap_parse sentence analyzer language None existing_mappings)
            = Inl (HTTPException code es)"
  then have "fst (PlaceholderManager_init existing_mappings) = Inl (HTTPException code es)"
    using mask_sentence_None_error by blast
  then have "HTTPException code es = ValueError" by (rule PlaceholderManager_init_error)
  then show False by simp
qed

lemma mask_sentence_None_address_pass:
  "sentence \<noteq> [] \<Longrightarrow> fst (PlaceholderManager_init existing_mappings) = Inr pm \<Longrightarrow>
   AddressPass sentence \<in> set (snd (mask_sentence pyap_parse sentence analyzer language None existing_mappings))"
  unfolding mask_sentence_def effective_entities_None Let_def
  by (auto simp: location_default split: prod.splits option.splits sum.splits)

lemma remove1_location_nonempty: "remove1 (py ''LOCATION'') PRESIDIO_ENTITIES \<noteq> []"
  by (simp add: PRESIDIO_ENTITIES_def py_simps)

lemma default_nonempty: "PRESIDIO_ENTITIES \<noteq> []"
  by (simp add: PRESIDIO_ENTITIES_def)

lemma mask_sentence_None_general_pass:
  "sentence \<noteq> [] \<Longrightarrow> fst (PlaceholderManager_init existing_mappings) = Inr pm \<Longrightarrow>
   \<exists>t es. GeneralPass t es \<in> set (snd (mask_sentence pyap_parse sentence (Some analyze) language None existing_mappings))
      \<and> (es = PRESIDIO_ENTITIES \<or> es = remove1 (py ''LOCATION'') PRESIDIO_ENTITIES)"
  unfolding mask_sentence_def effective_entities_None Let_def
  by (auto simp: location_default remove1_location_nonempty default_nonempty
           split: prod.splits option.splits sum.splits)

text \<open>
  C10. A request whose entity-types list is present but empty is handled exactly as one whose
  list is omitted: same result and same trace. Validation never rejects it (the only
  exception such a request can end with is the one seeding raised), the entity set in force
  is the whole of \<open>PRESIDIO_ENTITIES\<close>, and once the registry is seeded the address pass
  runs on a non-empty text and, with an analyzer at hand, the general pass runs with all
  default types, less LOCATION when the address pass found something.
\<close>

theorem empty_entities_as_omitted:
  "mask_sentence pyap_parse sentence analyzer language (Some []) existing_mappings
     = mask_sentence pyap_parse sentence analyzer language None existing_mappings
   \<and> effective_entities (Some []) = PRESIDIO_ENTITIES
   \<and> (\<forall>code es.
         fst (mask_sentence pyap_parse sentence analyzer language (Some []) existing_mappings)
           \<noteq> Inl (HTTPException code es))
   \<and> (\<forall>err.
         fst (mask_sentence pyap_parse sentence analyzer language (Some []) existing_mappings)
           = Inl err
         \<longrightarrow> sentence \<noteq> [] \<and> fst (PlaceholderManager_init existing_mappings) = Inl err)
   \<and> (sentence \<noteq> [] \<and> fst (PlaceholderManager_init existing_mappings) = Inr pm \<longrightarrow>
        AddressPass sentence
          \<in> set (snd (mask_sentence pyap_parse sentence analyzer language (Some []) existing_mappings)))
   \<and> (sentence \<noteq> [] \<and> fst (PlaceholderManager_init existing_mappings) = Inr pm \<longrightarrow>
        (\<exists>t es. GeneralPass t es
                  \<in> set (snd (mask_sentence pyap_parse sentence (Some analyze) language (Some [])
                                existing_mappings))
          \<and> (es = PRESIDIO_ENTITIES \<or> es = remove1 (py ''LOCATION'') PRESIDIO_ENTITIES)))"
proof -
  let ?m = "mask_sentence pyap_parse sentence analyzer language None existing_mappings"
  have 3: "\<forall>code es. fst ?m \<noteq> Inl (HTTPException code es)"
    using mask_sentence_None_not_rejected by blast
  have 4: "\<forall>err. fst ?m = Inl err
             \<longrightarrow> sentence \<noteq> [] \<and> fst (PlaceholderManager_init existing_mappings) = Inl err"
    using mask_sentence_None_error by blast
  have 5: "sentence \<noteq> [] \<and> fst (PlaceholderManager_init existing_mappings) = Inr pm \<longrightarrow>
        AddressPass sentence \<in> set (snd ?m)"
    using mask_sentence_None_address_pass by blast
  have 6: "sentence \<noteq> [] \<and> fst (PlaceholderManager_init existing_mappings) = Inr pm \<longrightarrow>
        (\<exists>t es. GeneralPass t es
                  \<in> set (snd (mask_sentence pyap_parse sentence (Some analyze) language None
                                existing_mappings))
          \<and> (es = PRESIDIO_ENTITIES \<or> es = remove1 (py ''LOCATION'') PRESIDIO_ENTITIES))"
    using mask_sentence_None_general_pass by blast
  show ?thesis
    unfolding mask_sentence_empty_list
    using 3 4 5 6 effective_entities_empty by (intro conjI) simp_all
qed

theorem empty_entities_as_omitted_witness:
  "fst (mask_sentence (\<lambda>_. []) (py ''My name is John Doe'') (Some an1) (py ''en'') (Some []) None)
     = Inr (py ''My name is <PERSON_1>'', [(py ''<PERSON_1>'', py ''John Doe'')])
   \<and> AddressPass (py ''My name is John Doe'')
        \<in> set (snd (mask_sentence (\<lambda>_. []) (py ''My name is John Doe'') (Some an1) (py ''en'') (Some []) None))"
proof -
  note t = empty_entities_as_omitted
             [of "\<lambda>_. []" "py ''My name is John Doe''" "Some an1" "py ''en''" None pm_fresh an1]
  have ne: "py ''My name is John Doe'' \<noteq> [] \<and> fst (PlaceholderManager_init None) = Inr pm_fresh"
    by (simp add: py_simps PlaceholderManager_init_fresh)
  have v: "fst (mask_sentence (\<lambda>_. []) (py ''My name is John Doe'') (Some an1) (py ''en'') None None)
     = Inr (py ''My name is <PERSON_1>'', [(py ''<PERSON_1>'', py ''John Doe'')])"
    by code_simp
  from t have e: "mask_sentence (\<lambda>_. []) (py ''My name is John Doe'') (Some an1) (py ''en'') (Some []) None
     = mask_sentence (\<lambda>_. []) (py ''My name is John Doe'') (Some an1) (py ''en'') None None"
    by (rule conjunct1)
  from t ne have a: "AddressPass (py ''My name is John Doe'')
        \<in> set (snd (mask_sentence (\<lambda>_. []) (py ''My name is John Doe'') (Some an1) (py ''en'') (Some []) None))"
    by blast
  from v a show ?thesis unfolding e by (rule conjI)
qed

section \<open>The general pass: greedy selection\<close>

lemma select_chosen_subset:
  "set (select_chosen text known excl cs l) \<subseteq> set cs"
  by (induction cs arbitrary: l) auto

lemma select_chosen_subseq:
  "subseq (select_chosen text known excl cs l) cs"
  by (induction cs arbitrary: l) auto

lemma select_chosen_start_ge:
  "sorted (map start cs) \<Longrightarrow> c \<in> set (select_chosen text known excl cs l) \<Longrightarrow> l \<le> start c"
proof (induction cs arbitrary: l)
  case Nil
  then show ?case by simp
next
  case (Cons r rs)
  from Cons.prems(1) have srt: "sorted (map start rs)" and ge: "\<forall>x \<in> set rs. start r \<le> start x"
    by auto
  show ?case
  proof (cases "\<not> overlaps_any (start r) (end' r) excl
                 \<and> slice text (start r) (end' r) \<notin> set (dict_keys known) \<and> l \<le> start r")
    case True
    with Cons.prems(2) have "c = r \<or> c \<in> set (select_chosen text known excl rs (end' r))"
      by auto
    then show ?thesis
    proof
      assume "c = r" with True show ?thesis by simp
    next
      assume "c \<in> set (select_chosen text known excl rs (end' r))"
      with select_chosen_subset have "c \<in> set rs" by blast
      with ge True show ?thesis by force
    qed
  next
    case False
    with Cons.prems(2) have "c \<in> set (select_chosen text known excl rs l)"
      by (auto split: if_splits)
    with Cons.IH srt show ?thesis by blast
  qed
qed

lemma select_chosen_chain:
  "sorted (map start cs) \<Longrightarrow>
   sorted_wrt (\<lambda>a b. end' a \<le> start b) (select_chosen text known excl cs l)"
proof (induction cs arbitrary: l)
  case Nil
  then show ?case by simp
next
  case (Cons r rs)
  from Cons.prems have srt: "sorted (map start rs)" by simp
  show ?case
    using Cons.IH [OF srt] select_chosen_start_ge [OF srt]
    by auto
qed

lemma select_chosen_sorted_start:
  "sorted (map start cs) \<Longrightarrow> sorted (map start (select_chosen text known excl cs l))"
proof (induction cs arbitrary: l)
  case Nil
  then show ?case by simp
next
  case (Cons r rs)
  from Cons.prems have srt: "sorted (map start rs)" and ge: "\<forall>x \<in> set rs. start r \<le> start x"
    by auto
  have "\<forall>x \<in> set (select_chosen text known excl rs (end' r)). start r \<le> start x"
    using ge select_chosen_subset by blast
  with Cons.IH [OF srt] show ?case by simp
qed

lemma sort_results_sorted_start: "sorted (map start (sort_results results))"
proof -
  have "sorted (map (\<lambda>r. (start r, - (end' r - start r), - score r)) (sort_results results))"
    unfolding sort_results_def by (rule sorted_sort_key)
  then have "sorted_wrt (\<lambda>x y. (start x, - (end' x - start x), - score x)
                              \<le> (start y, - (end' y - start y), - score y)) (sort_results results)"
    by (simp add: sorted_map)
  then have "sorted_wrt (\<lambda>x y. start x \<le> start y) (sort_results results)"
    by (rule sorted_wrt_mono_rel [rotated]) (auto simp: less_eq_prod_def)
  then show ?thesis by (simp add: sorted_map)
qed

text \<open>
  C3. The candidates are sorted by (start ascending, length descending, score descending),
  the sort only permuting them. The list chosen from them by the greedy loop, for any
  excluded regions and any known placeholders, is a subsequence of the sorted candidates, is
  sorted by start offset, and every chosen span ends at or before the start of every span
  chosen after it, so no two chosen spans overlap. A candidate that starts before the end of
  the last accepted span is dropped and the loop goes on as if it had not been there; one that
  passes the two filters and starts at or after that end is accepted.
\<close>

theorem chosen_disjoint_sorted:
  "sorted (map sort_key_of (sort_results results))
   \<and> mset (sort_results results) = mset results
   \<and> subseq (select_chosen text known exclude_spans (sort_results results) (- 1)) (sort_results results)
   \<and> sorted (map start (select_chosen text known exclude_spans (sort_results results) (- 1)))
   \<and> sorted_wrt (\<lambda>a b. end' a \<le> start b \<and> \<not> spans_overlap a b)
        (select_chosen text known exclude_spans (sort_results results) (- 1))
   \<and> (start r < last_end \<longrightarrow>
        select_chosen text known exclude_spans (r # rest) last_end
          = select_chosen text known exclude_spans rest last_end)
   \<and> (last_end \<le> start r \<and> \<not> overlaps_any (start r) (end' r) exclude_spans
        \<and> slice text (start r) (end' r) \<notin> set (dict_keys known) \<longrightarrow>
        select_chosen text known exclude_spans (r # rest) last_end
          = r # select_chosen text known exclude_spans rest (end' r))"
proof -
  let ?cs = "sort_results results"
  let ?ch = "select_chosen text known exclude_spans ?cs (- 1)"
  have 1: "sorted (map sort_key_of ?cs)"
    unfolding sort_results_def sort_key_of_def by (rule sorted_sort_key)
  have 2: "mset ?cs = mset results" unfolding sort_results_def by simp
  have 3: "subseq ?ch ?cs" by (rule select_chosen_subseq)
  have 4: "sorted (map start ?ch)"
    by (rule select_chosen_sorted_start) (rule sort_results_sorted_start)
  have "sorted_wrt (\<lambda>a b. end' a \<le> start b) ?ch"
    by (rule select_chosen_chain) (rule sort_results_sorted_start)
  then have 5: "sorted_wrt (\<lambda>a b. end' a \<le> start b \<and> \<not> spans_overlap a b) ?ch"
    by (rule sorted_wrt_mono_rel [rotated]) (auto simp: spans_overlap_def)
  have 6: "start r < last_end \<longrightarrow>
        select_chosen text known exclude_spans (r # rest) last_end
          = select_chosen text known exclude_spans rest last_end"
    by simp
  have 7: "last_end \<le> start r \<and> \<not> overlaps_any (start r) (end' r) exclude_spans
        \<and> slice text (start r) (end' r) \<notin> set (dict_keys known) \<longrightarrow>
        select_chosen text known exclude_spans (r # rest) last_end
          = r # select_chosen text known exclude_spans rest (end' r)"
    by simp
  from 1 2 3 4 5 6 7 show ?thesis by blast
qed

theorem chosen_disjoint_sorted_witness:
  "select_chosen (py ''0123456789'') [] [] (sort_results [cand_c, cand_b, cand_a]) (- 1) = [cand_a, cand_c]
   \<and> sorted_wrt (\<lambda>a b. end' a \<le> start b \<and> \<not> spans_overlap a b) [cand_a, cand_c]
   \<and> select_chosen (py ''0123456789'') [] [] [cand_b, cand_c] 5
        = select_chosen (py ''0123456789'') [] [] [cand_c] 5"
proof -
  note t = chosen_disjoint_sorted
             [of "[cand_c, cand_b, cand_a]" "py ''0123456789''" "[]" "[]" cand_b 5 "[cand_c]"]
  have v: "select_chosen (py ''0123456789'') [] [] (sort_results [cand_c, cand_b, cand_a]) (- 1)
             = [cand_a, cand_c]"
    by code_simp
  have h: "start cand_b < 5" by (simp add: py_simps cand_b_def)
  from t have "sorted_wrt (\<lambda>a b. end' a \<le> start b \<and> \<not> spans_overlap a b)
        (select_chosen (py ''0123456789'') [] [] (sort_results [cand_c, cand_b, cand_a]) (- 1))"
    by blast
  then have s: "sorted_wrt (\<lambda>a b. end' a \<le> start b \<and> \<not> spans_overlap a b) [cand_a, cand_c]"
    unfolding v .
  from t h have d: "select_chosen (py ''0123456789'') [] [] [cand_b, cand_c] 5
        = select_chosen (py ''0123456789'') [] [] [cand_c] 5"
    by blast
  from v s d show ?thesis by blast
qed

lemma select_chosen_guarded:
  "r \<in> set (select_chosen text known excl cs l) \<Longrightarrow>
   slice text (start r) (end' r) \<notin> set (dict_keys known)"
  by (induction cs arbitrary: l) (auto split: if_splits)

text \<open>
  C4. No chosen span has a matched text that is a key of the placeholder-to-value map: a
  candidate whose text is such a key is skipped, whatever else holds of it, and when every
  candidate is one the general pass returns the text and the registry unchanged. The test
  reads the keys only: a candidate whose text is not a key, overlaps no excluded span and
  starts at or after the last accepted end is accepted, also when its text is a mapped value.
\<close>

theorem idempotency_guard:
  "(\<forall>r \<in> set (select_chosen text known exclude_spans candidates last_end).
       slice text (start r) (end' r) \<notin> set (dict_keys known))
   \<and> (slice text (start res) (end' res) \<in> set (dict_keys known) \<longrightarrow>
        select_chosen text known exclude_spans (res # candidates) last_end
          = select_chosen text known exclude_spans candidates last_end)
   \<and> (slice text (start res) (end' res) \<notin> set (dict_keys known)
        \<and> \<not> overlaps_any (start res) (end' res) exclude_spans \<and> last_end \<le> start res \<longrightarrow>
        select_chosen text known exclude_spans (res # candidates) last_end
          = res # select_chosen text known exclude_spans candidates (end' res))
   \<and> ((\<forall>r \<in> set (analyze text language entities MIN_THRESHOLD).
          slice text (start r) (end' r) \<in> set (dict_keys (mappings pm))) \<longrightarrow>
        PresidioMasker_mask analyze pm language text entities exclude_spans = (text, pm))"
proof -
  have 1: "\<forall>r \<in> set (select_chosen text known exclude_spans candidates last_end).
       slice text (start r) (end' r) \<notin> set (dict_keys known)"
    using select_chosen_guarded by blast
  have 4: "PresidioMasker_mask analyze pm language text entities exclude_spans = (text, pm)"
    if a: "\<forall>r \<in> set (analyze text language entities MIN_THRESHOLD).
          slice text (start r) (end' r) \<in> set (dict_keys (mappings pm))"
  proof -
    let ?cs = "sort_results (analyze text language entities MIN_THRESHOLD)"
    have "select_chosen text (mappings pm) exclude_spans ?cs (- 1) = []"
    proof (cases "select_chosen text (mappings pm) exclude_spans ?cs (- 1)")
      case Nil
      then show ?thesis .
    next
      case (Cons r rs)
      then have r: "r \<in> set (select_chosen text (mappings pm) exclude_spans ?cs (- 1))"
        by simp
      with select_chosen_subset have "r \<in> set ?cs" by blast
      then have "r \<in> set (analyze text language entities MIN_THRESHOLD)"
        by (simp add: sort_results_def)
      with a have "slice text (start r) (end' r) \<in> set (dict_keys (mappings pm))" by blast
      with select_chosen_guarded [OF r] show ?thesis by blast
    qed
    then show ?thesis by (simp add: PresidioMasker_mask_def)
  qed
  from 1 4 show ?thesis by simp
qed

theorem idempotency_guard_witness:
  "PresidioMasker_mask an_ph pm_seeded (py ''en'') (py ''Hi <PERSON_1>, John Doe'') [py ''PERSON''] []
     = (py ''Hi <PERSON_1>, John Doe'', pm_seeded)
   \<and> select_chosen (py ''Hi <PERSON_1>, John Doe'') [(py ''<PERSON_1>'', py ''John Doe'')] []
        [\<lparr>entity_type = py ''PERSON'', start = 15, end' = 23, score = 9/10\<rparr>] (- 1)
      = [\<lparr>entity_type = py ''PERSON'', start = 15, end' = 23, score = 9/10\<rparr>]"
proof -
  let ?T = "py ''Hi <PERSON_1>, John Doe''"
  let ?r = "\<lparr>entity_type = py ''PERSON'', start = 15, end' = 23, score = 9/10\<rparr>"
  note t = idempotency_guard
             [of ?T "[(py ''<PERSON_1>'', py ''John Doe'')]" "[]" "[]" "- 1" ?r an_ph "py ''en''"
                 "[py ''PERSON'']" pm_seeded]
  have m: "mappings pm_seeded = [(py ''<PERSON_1>'', py ''John Doe'')]"
    by code_simp
  have h1: "\<forall>r \<in> set (an_ph ?T (py ''en'') [py ''PERSON''] MIN_THRESHOLD).
          slice ?T (start r) (end' r) \<in> set (dict_keys (mappings pm_seeded))"
    unfolding m by (simp add: py_simps an_ph_def slice_def py_index_def dict_keys_def)
  have h2: "slice ?T (start ?r) (end' ?r) \<notin> set (dict_keys [(py ''<PERSON_1>'', py ''John Doe'')])
        \<and> \<not> overlaps_any (start ?r) (end' ?r) [] \<and> - 1 \<le> start ?r"
    by (simp add: py_simps slice_def py_index_def dict_keys_def overlaps_any_def)
  from t h1 have a: "PresidioMasker_mask an_ph pm_seeded (py ''en'') ?T [py ''PERSON''] [] = (?T, pm_seeded)"
    by blast
  from t h2 have "select_chosen ?T [(py ''<PERSON_1>'', py ''John Doe'')] [] [?r] (- 1)
                    = ?r # select_chosen ?T [(py ''<PERSON_1>'', py ''John Doe'')] [] [] (end' ?r)"
    by blast
  then have b: "select_chosen ?T [(py ''<PERSON_1>'', py ''John Doe'')] [] [?r] (- 1) = [?r]"
    by (simp add: py_simps)
  from a b show ?thesis by (rule conjI)
qed

section \<open>Seeding the registry\<close>

subsection \<open>Decimal numbers and the canonical pattern\<close>

lemma decimal_value_ascii:
  assumes "48 \<le> c" and "c < 58"
  shows "decimal_value c = Some (nat (c - 48))"
proof -
  have z: "decimal_zeros = 48 # tl decimal_zeros" by (simp add: decimal_zeros_def)
  have "filter (\<lambda>z. z \<le> c \<and> c < z + 10) (48 # tl decimal_zeros)
          = 48 # filter (\<lambda>z. z \<le> c \<and> c < z + 10) (tl decimal_zeros)"
    using assms by simp
  then have "filter (\<lambda>z. z \<le> c \<and> c < z + 10) decimal_zeros
          = 48 # filter (\<lambda>z. z \<le> c \<and> c < z + 10) (tl decimal_zeros)"
    using z by simp
  then show ?thesis by (simp add: decimal_value_def)
qed

lemma is_digit_digit_char: "d < 10 \<Longrightarrow> is_digit (digit_char d)"
  by (simp add: is_digit_def digit_char_def decimal_value_ascii)

lemma digit_val_digit_char: "d < 10 \<Longrightarrow> digit_val (digit_char d) = d"
  by (simp add: digit_val_def digit_char_def decimal_value_ascii)

lemma underscore_no_digit: "\<not> is_digit (cp (CHR ''_''))"
  by code_simp

lemma is_digit_not_underscore: "is_digit c \<Longrightarrow> c \<noteq> cp (CHR ''_'')"
  using underscore_no_digit by auto

lemma str_nat_digits: "list_all is_digit (str_nat n)"
proof (induction n rule: str_nat.induct)
  case (1 n)
  show ?case
  proof (cases "n < 10")
    case True
    then show ?thesis by (subst str_nat.simps) (simp add: is_digit_digit_char)
  next
    case False
    with "1.IH" have "list_all is_digit (str_nat (n div 10))" by simp
    with False show ?thesis by (subst str_nat.simps) (simp add: is_digit_digit_char)
  qed
qed

lemma int_of_digits_snoc: "int_of_digits (s @ [c]) = 10 * int_of_digits s + digit_val c"
  by (simp add: int_of_digits_def)

lemma int_of_digits_str_nat: "int_of_digits (str_nat n) = n"
proof (induction n rule: str_nat.induct)
  case (1 n)
  show ?case
  proof (cases "n < 10")
    case True
    then show ?thesis
      by (subst str_nat.simps) (simp add: int_of_digits_def digit_val_digit_char)
  next
    case False
    with "1.IH" have "int_of_digits (str_nat (n div 10)) = n div 10" by simp
    with False show ?thesis
      by (subst str_nat.simps) (simp add: int_of_digits_snoc digit_val_digit_char)
  qed
qed

lemma split_last_underscore_append:
  assumes "cp (CHR ''_'') \<notin> set ds"
  shows "split_last_underscore (e @ cp (CHR ''_'') # ds) = Some (e, ds)"
proof -
  let ?P = "\<lambda>c. c \<noteq> cp (CHR ''_'')"
  have r: "rev (e @ cp (CHR ''_'') # ds) = rev ds @ (cp (CHR ''_'') # rev e)" by simp
  have "takeWhile ?P (rev ds @ (cp (CHR ''_'') # rev e)) = rev ds @ takeWhile ?P (cp (CHR ''_'') # rev e)"
    by (rule takeWhile_append2) (use assms in auto)
  then have t: "takeWhile ?P (rev ds @ (cp (CHR ''_'') # rev e)) = rev ds" by simp
  have "dropWhile ?P (rev ds @ (cp (CHR ''_'') # rev e)) = dropWhile ?P (cp (CHR ''_'') # rev e)"
    by (rule dropWhile_append2) (use assms in auto)
  then have d: "dropWhile ?P (rev ds @ (cp (CHR ''_'') # rev e)) = cp (CHR ''_'') # rev e" by simp
  show ?thesis unfolding split_last_underscore_def r t d by simp
qed

lemma placeholder_fullmatch_canonical:
  assumes "list_all is_digit ds"
  shows "placeholder_fullmatch (py ''<'' @ e @ py ''_'' @ ds @ py ''>'')
           = (if e \<noteq> [] \<and> list_all is_entity_char e \<and> ds \<noteq> [] then Some (e, ds) else None)"
proof -
  have nu: "cp (CHR ''_'') \<notin> set ds"
    using assms is_digit_not_underscore by (auto simp: list_all_iff)
  have b: "butlast (e @ cp (CHR ''_'') # ds @ [cp (CHR ''>'')]) = e @ cp (CHR ''_'') # ds"
    by (simp add: butlast_append)
  show ?thesis
    using assms
    by (simp add: placeholder_fullmatch_def py_Nil py_Cons b split_last_underscore_append [OF nu])
qed

lemma placeholder_fullmatch_minted:
  assumes "placeholder_fullmatch (py ''<'' @ e @ py ''_'' @ str_nat n @ py ''>'') = Some (e', ds)"
  shows "e' = e \<and> ds = str_nat n"
  using assms placeholder_fullmatch_canonical [OF str_nat_digits, of e n]
  by (simp split: if_splits)

subsection \<open>The seeding loop\<close>

lemma int_str_within: "length ds \<le> INT_MAX_STR_DIGITS \<Longrightarrow> int_str ds = Inr (int_of_digits ds)"
  by (simp add: int_str_def)

lemma int_str_beyond: "\<not> length ds \<le> INT_MAX_STR_DIGITS \<Longrightarrow> int_str ds = Inl ValueError"
  by (simp add: int_str_def)

lemma int_str_Inr: "int_str ds = Inr n \<Longrightarrow> n = int_of_digits ds \<and> length ds \<le> INT_MAX_STR_DIGITS"
  by (simp add: int_str_def split: if_splits)

text \<open>One round of the loop, for a key the pattern rejects and for one it accepts.\<close>

lemma initialise_loop_malformed:
  "placeholder_fullmatch k = None \<Longrightarrow>
   initialise_loop ((k, v) # items) (pm, ws) = initialise_loop items (pm, ws @ [k])"
  by simp

lemma initialise_loop_well_formed:
  "placeholder_fullmatch k = Some (e, ds) \<Longrightarrow> length ds \<le> INT_MAX_STR_DIGITS \<Longrightarrow>
   initialise_loop ((k, v) # items) (pm, ws)
     = initialise_loop items
         (pm\<lparr>entity_counters :=
               (entity_counters pm)(e := max (entity_counters pm e) (int_of_digits ds)),
             pii_to_placeholder := (pii_to_placeholder pm)((e, v) \<mapsto> k)\<rparr>, ws)"
  by (simp add: int_str_within)

lemma initialise_loop_oversize:
  "placeholder_fullmatch k = Some (e, ds) \<Longrightarrow> \<not> length ds \<le> INT_MAX_STR_DIGITS \<Longrightarrow>
   initialise_loop ((k, v) # items) (pm, ws) = (Inl ValueError, ws)"
  by (simp add: int_str_beyond)

lemma suffixes_within_limit_Cons:
  "suffixes_within_limit ((k, v) # items)
     = ((case placeholder_fullmatch k of None \<Rightarrow> True
         | Some (e, ds) \<Rightarrow> length ds \<le> INT_MAX_STR_DIGITS)
        \<and> suffixes_within_limit items)"
  by (simp add: suffixes_within_limit_def)

lemma seeded_keys_Cons:
  "seeded_keys ((k, v) # items) e' v'
     = (if v = v' \<and> (\<exists>ds. placeholder_fullmatch k = Some (e', ds))
        then k # seeded_keys items e' v' else seeded_keys items e' v')"
  by (auto simp: seeded_keys_def split: option.splits)

lemma seeded_keys_Nil: "seeded_keys [] e v = []"
  by (simp add: seeded_keys_def)

lemma seeded_keys_append:
  "seeded_keys (xs @ ys) e v = seeded_keys xs e v @ seeded_keys ys e v"
  by (simp add: seeded_keys_def)

lemma seeded_keys_filter:
  "seeded_keys (filter (\<lambda>(k, v). well_formed k) items) e v = seeded_keys items e v"
proof -
  have "filter (\<lambda>(k, v'). v' = v
                  \<and> (case placeholder_fullmatch k of None \<Rightarrow> False | Some (e', ds) \<Rightarrow> e' = e))
          (filter (\<lambda>(k, v). well_formed k) items)
        = filter (\<lambda>(k, v'). v' = v
                  \<and> (case placeholder_fullmatch k of None \<Rightarrow> False | Some (e', ds) \<Rightarrow> e' = e))
          items"
    unfolding filter_filter
    by (rule filter_cong) (auto simp: well_formed_def split: option.splits)
  then show ?thesis by (simp add: seeded_keys_def)
qed

lemma seeded_keys_member:
  "k \<in> set (seeded_keys items e v)
     \<longleftrightarrow> (k, v) \<in> set items \<and> (\<exists>ds. placeholder_fullmatch k = Some (e, ds))"
proof (induction items)
  case Nil
  then show ?case by (simp add: seeded_keys_Nil)
next
  case (Cons item items)
  obtain k0 v0 where item: "item = (k0, v0)" by (cases item)
  from Cons.IH show ?case unfolding item by (auto simp: seeded_keys_Cons)
qed

text \<open>The loop raises exactly when some well-formed key has too many digits.\<close>

lemma initialise_loop_raises:
  "\<not> suffixes_within_limit items \<Longrightarrow> fst (initialise_loop items (pm, ws)) = Inl ValueError"
proof (induction items arbitrary: pm ws)
  case Nil
  then show ?case by (simp add: suffixes_within_limit_def)
next
  case (Cons item items)
  obtain k v where item: "item = (k, v)" by (cases item)
  show ?case
  proof (cases "placeholder_fullmatch k")
    case None
    with Cons.prems have "\<not> suffixes_within_limit items"
      unfolding item suffixes_within_limit_Cons by simp
    from Cons.IH [OF this] show ?thesis
      unfolding item initialise_loop_malformed [OF None] .
  next
    case (Some m)
    obtain e ds where m: "placeholder_fullmatch k = Some (e, ds)" using Some by (cases m) simp
    show ?thesis
    proof (cases "length ds \<le> INT_MAX_STR_DIGITS")
      case True
      with Cons.prems m have "\<not> suffixes_within_limit items"
        unfolding item suffixes_within_limit_Cons by simp
      from Cons.IH [OF this] show ?thesis
        unfolding item initialise_loop_well_formed [OF m True] .
    next
      case False
      show ?thesis unfolding item initialise_loop_oversize [OF m False] by simp
    qed
  qed
qed

text \<open>Within the limit it ends with a registry, described here in closed form.\<close>

lemma initialise_loop_seeds:
  assumes "suffixes_within_limit items"
  shows "\<exists>pm'. initialise_loop items (pm, ws)
                 = (Inr pm', ws @ filter (\<lambda>k. \<not> well_formed k) (map fst items))
          \<and> placeholder_to_pii pm' = placeholder_to_pii pm
          \<and> (\<forall>e v. pii_to_placeholder pm' (e, v)
                     = (if seeded_keys items e v = [] then pii_to_placeholder pm (e, v)
                        else Some (last (seeded_keys items e v))))
          \<and> (\<forall>e. entity_counters pm e \<le> entity_counters pm' e)
          \<and> (\<forall>k v e ds. (k, v) \<in> set items \<and> placeholder_fullmatch k = Some (e, ds)
                 \<longrightarrow> int_of_digits ds \<le> entity_counters pm' e)"
  using assms
proof (induction items arbitrary: pm ws)
  case Nil
  then show ?case by (simp add: seeded_keys_Nil)
next
  case (Cons item items)
  obtain k v where item: "item = (k, v)" by (cases item)
  from Cons.prems have lim: "suffixes_within_limit items"
    unfolding item suffixes_within_limit_Cons by simp
  show ?case
  proof (cases "placeholder_fullmatch k")
    case None
    from Cons.IH [OF lim, of pm "ws @ [k]"] obtain pm' where
      r: "initialise_loop items (pm, ws @ [k])
            = (Inr pm', (ws @ [k]) @ filter (\<lambda>k. \<not> well_formed k) (map fst items))"
      and p: "placeholder_to_pii pm' = placeholder_to_pii pm"
      and i: "\<forall>e v. pii_to_placeholder pm' (e, v)
                     = (if seeded_keys items e v = [] then pii_to_placeholder pm (e, v)
                        else Some (last (seeded_keys items e v)))"
      and c: "\<forall>e. entity_counters pm e \<le> entity_counters pm' e"
      and n: "\<forall>k v e ds. (k, v) \<in> set items \<and> placeholder_fullmatch k = Some (e, ds)
                 \<longrightarrow> int_of_digits ds \<le> entity_counters pm' e"
      by blast
    have sk: "seeded_keys ((k, v) # items) e' v' = seeded_keys items e' v'" for e' v'
      using None by (simp add: seeded_keys_Cons)
    have "initialise_loop (item # items) (pm, ws)
            = (Inr pm', ws @ filter (\<lambda>k. \<not> well_formed k) (map fst (item # items)))"
      unfolding item initialise_loop_malformed [OF None] r
      using None by (simp add: well_formed_def)
    moreover have "\<forall>k' v' e ds. (k', v') \<in> set (item # items)
                     \<and> placeholder_fullmatch k' = Some (e, ds)
                 \<longrightarrow> int_of_digits ds \<le> entity_counters pm' e"
      using n None unfolding item by auto
    ultimately show ?thesis using p i c unfolding item sk by blast
  next
    case (Some m)
    obtain e ds where m: "placeholder_fullmatch k = Some (e, ds)" using Some by (cases m) simp
    from Cons.prems m have len: "length ds \<le> INT_MAX_STR_DIGITS"
      unfolding item suffixes_within_limit_Cons by simp
    let ?pm1 = "pm\<lparr>entity_counters :=
                      (entity_counters pm)(e := max (entity_counters pm e) (int_of_digits ds)),
                    pii_to_placeholder := (pii_to_placeholder pm)((e, v) \<mapsto> k)\<rparr>"
    from Cons.IH [OF lim, of ?pm1 ws] obtain pm' where
      r: "initialise_loop items (?pm1, ws)
            = (Inr pm', ws @ filter (\<lambda>k. \<not> well_formed k) (map fst items))"
      and p: "placeholder_to_pii pm' = placeholder_to_pii ?pm1"
      and i: "\<forall>e' v'. pii_to_placeholder pm' (e', v')
                     = (if seeded_keys items e' v' = [] then pii_to_placeholder ?pm1 (e', v')
                        else Some (last (seeded_keys items e' v')))"
      and c: "\<forall>e'. entity_counters ?pm1 e' \<le> entity_counters pm' e'"
      and n: "\<forall>k v e ds. (k, v) \<in> set items \<and> placeholder_fullmatch k = Some (e, ds)
                 \<longrightarrow> int_of_digits ds \<le> entity_counters pm' e"
      by blast
    have 1: "initialise_loop (item # items) (pm, ws)
            = (Inr pm', ws @ filter (\<lambda>k. \<not> well_formed k) (map fst (item # items)))"
      unfolding item initialise_loop_well_formed [OF m len] r
      using m by (simp add: well_formed_def)
    have 2: "placeholder_to_pii pm' = placeholder_to_pii pm" using p by simp
    have 3: "pii_to_placeholder pm' (e', v')
               = (if seeded_keys (item # items) e' v' = [] then pii_to_placeholder pm (e', v')
                  else Some (last (seeded_keys (item # items) e' v')))" for e' v'
    proof (cases "v = v' \<and> e = e'")
      case True
      then have sk: "seeded_keys (item # items) e' v' = k # seeded_keys items e' v'"
        unfolding item using m by (simp add: seeded_keys_Cons)
      from i True show ?thesis unfolding sk by simp
    next
      case False
      then have sk: "seeded_keys (item # items) e' v' = seeded_keys items e' v'"
        unfolding item using m by (auto simp: seeded_keys_Cons)
      from False have "pii_to_placeholder ?pm1 (e', v') = pii_to_placeholder pm (e', v')"
        by auto
      with i show ?thesis unfolding sk by simp
    qed
    have 4: "entity_counters pm e' \<le> entity_counters pm' e'" for e'
    proof -
      have "entity_counters pm e' \<le> entity_counters ?pm1 e'" by simp
      also have "\<dots> \<le> entity_counters pm' e'" using c by blast
      finally show ?thesis .
    qed
    have 5: "int_of_digits ds' \<le> entity_counters pm' e'"
      if "(k', v') \<in> set (item # items)" and "placeholder_fullmatch k' = Some (e', ds')"
      for k' v' e' ds'
    proof (cases "(k', v') \<in> set items")
      case True
      with n that(2) show ?thesis by blast
    next
      case False
      with that(1) have "k' = k" unfolding item by simp
      with that(2) m have eq: "e' = e" "ds' = ds" by simp_all
      have "int_of_digits ds \<le> entity_counters ?pm1 e" by simp
      also have "\<dots> \<le> entity_counters pm' e" using c by blast
      finally show ?thesis unfolding eq .
    qed
    from 1 2 3 4 5 show ?thesis by blast
  qed
qed

lemma PlaceholderManager_init_loop:
  "PlaceholderManager_init (Some seed)
     = initialise_loop seed
         (\<lparr>placeholder_to_pii = seed, pii_to_placeholder = Map.empty,
           entity_counters = (\<lambda>_. 0)\<rparr>, [])"
  by (simp add: PlaceholderManager_init_def initialise_from_existing_def)

lemma suffixes_within_limit_filter:
  "suffixes_within_limit seed \<Longrightarrow> suffixes_within_limit (filter P seed)"
  by (simp add: suffixes_within_limit_def list_all_iff)

text \<open>Malformed entries leave the registry as it is.\<close>

lemma initialise_loop_filter:
  "fst (initialise_loop items (pm, ws))
     = fst (initialise_loop (filter (\<lambda>(k, v). well_formed k) items) (pm, ws'))"
proof (induction items arbitrary: pm ws ws')
  case Nil
  then show ?case by simp
next
  case (Cons item items)
  obtain k v where item: "item = (k, v)" by (cases item)
  show ?case
  proof (cases "placeholder_fullmatch k")
    case None
    then have "\<not> well_formed k" by (simp add: well_formed_def)
    then show ?thesis
      unfolding item initialise_loop_malformed [OF None] using Cons.IH by simp
  next
    case (Some m)
    obtain e ds where m: "placeholder_fullmatch k = Some (e, ds)" using Some by (cases m) simp
    then have wf: "well_formed k" by (simp add: well_formed_def)
    show ?thesis
    proof (cases "length ds \<le> INT_MAX_STR_DIGITS")
      case True
      show ?thesis
        unfolding item using wf Cons.IH
        by (simp add: initialise_loop_well_formed [OF m True] del: initialise_loop.simps)
    next
      case False
      show ?thesis
        unfolding item using wf
        by (simp add: initialise_loop_oversize [OF m False] del: initialise_loop.simps)
    qed
  qed
qed

text \<open>The loop never reads the mapping it was started with.\<close>

lemma initialise_loop_p2p_update:
  "fst (initialise_loop items
          (\<lparr>placeholder_to_pii = d, pii_to_placeholder = b, entity_counters = c\<rparr>, ws))
     = map_sum id (\<lambda>pm. pm\<lparr>placeholder_to_pii := d\<rparr>)
         (fst (initialise_loop items
                 (\<lparr>placeholder_to_pii = d', pii_to_placeholder = b, entity_counters = c\<rparr>, ws)))"
proof (induction items arbitrary: b c ws)
  case Nil
  then show ?case by simp
next
  case (Cons item items)
  obtain k v where item: "item = (k, v)" by (cases item)
  show ?case
  proof (cases "placeholder_fullmatch k")
    case None
    show ?thesis unfolding item initialise_loop_malformed [OF None] by (rule Cons.IH)
  next
    case (Some m)
    obtain e ds where m: "placeholder_fullmatch k = Some (e, ds)" using Some by (cases m) simp
    show ?thesis
    proof (cases "length ds \<le> INT_MAX_STR_DIGITS")
      case True
      have step: "initialise_loop ((k, v) # items)
                    (\<lparr>placeholder_to_pii = x, pii_to_placeholder = b, entity_counters = c\<rparr>, ws)
            = initialise_loop items
                (\<lparr>placeholder_to_pii = x, pii_to_placeholder = b((e, v) \<mapsto> k),
                  entity_counters = c(e := max (c e) (int_of_digits ds))\<rparr>, ws)" for x
        by (simp add: initialise_loop_well_formed [OF m True] del: initialise_loop.simps)
      show ?thesis unfolding item step by (rule Cons.IH)
    next
      case False
      show ?thesis unfolding item initialise_loop_oversize [OF m False] by simp
    qed
  qed
qed

subsection \<open>Minted tokens and seeded keys\<close>

lemma placeholder_for_counter_mono:
  "entity_counters pm e \<le> entity_counters (snd (placeholder_for e' v pm)) e"
proof (cases "pii_to_placeholder pm (e', v)")
  case None
  then show ?thesis unfolding placeholder_for_def Let_def by simp
next
  case (Some a)
  then show ?thesis unfolding placeholder_for_def by simp
qed

lemma placeholder_calls_counter_mono:
  "entity_counters pm e \<le> entity_counters (placeholder_calls cs pm) e"
proof (induction cs arbitrary: pm)
  case Nil
  then show ?case by simp
next
  case (Cons c cs)
  obtain e' v where c: "c = (e', v)" by (cases c)
  have "entity_counters pm e \<le> entity_counters (snd (placeholder_for e' v pm)) e"
    by (rule placeholder_for_counter_mono)
  also have "\<dots> \<le> entity_counters (placeholder_calls cs (snd (placeholder_for e' v pm))) e"
    by (rule Cons.IH)
  finally show ?case unfolding c by simp
qed

lemma counters_cover_calls:
  "counters_cover seed pm \<Longrightarrow> counters_cover seed (placeholder_calls cs pm)"
  unfolding counters_cover_def
  using placeholder_calls_counter_mono le_trans by blast

lemma placeholder_for_minted:
  "pii_to_placeholder pm (e, v) = None \<Longrightarrow>
   fst (placeholder_for e v pm) = py ''<'' @ e @ py ''_'' @ str_nat (entity_counters pm e + 1) @ py ''>''"
  unfolding placeholder_for_def Let_def by simp

lemma minted_not_seeded:
  assumes cov: "counters_cover seed pm"
    and new: "pii_to_placeholder pm (e, v) = None"
    and k: "(k, v') \<in> set seed" and wf: "well_formed k"
  shows "fst (placeholder_for e v pm) \<noteq> k"
proof
  assume eq: "fst (placeholder_for e v pm) = k"
  from wf obtain E ds where m: "placeholder_fullmatch k = Some (E, ds)"
    by (auto simp: well_formed_def)
  let ?n = "entity_counters pm e + 1"
  from eq new have k': "k = py ''<'' @ e @ py ''_'' @ str_nat ?n @ py ''>''"
    using placeholder_for_minted by simp
  from m have "E = e \<and> ds = str_nat ?n"
    unfolding k' by (rule placeholder_fullmatch_minted)
  with m have m': "placeholder_fullmatch k = Some (e, str_nat ?n)" by simp
  from cov k m' have "int_of_digits (str_nat ?n) \<le> entity_counters pm e"
    unfolding counters_cover_def by blast
  then show False by (simp add: int_of_digits_str_nat)
qed

subsection \<open>The seeded registry\<close>

lemma PlaceholderManager_init_raises:
  "fst (PlaceholderManager_init (Some seed)) = Inl ValueError \<longleftrightarrow> \<not> suffixes_within_limit seed"
proof
  assume r: "fst (PlaceholderManager_init (Some seed)) = Inl ValueError"
  show "\<not> suffixes_within_limit seed"
  proof
    assume "suffixes_within_limit seed"
    from initialise_loop_seeds [OF this] r show False
      unfolding PlaceholderManager_init_loop by (metis Inl_Inr_False fst_conv)
  qed
next
  assume "\<not> suffixes_within_limit seed"
  then show "fst (PlaceholderManager_init (Some seed)) = Inl ValueError"
    unfolding PlaceholderManager_init_loop by (rule initialise_loop_raises)
qed

lemma PlaceholderManager_init_filter:
  assumes "PlaceholderManager_init (Some seed) = (Inr pm, ws)"
  shows "fst (PlaceholderManager_init (Some (filter (\<lambda>(k, v). well_formed k) seed)))
           = Inr (pm\<lparr>placeholder_to_pii := filter (\<lambda>(k, v). well_formed k) seed\<rparr>)"
proof -
  let ?wf = "filter (\<lambda>(k, v). well_formed k) seed"
  let ?init = "\<lparr>placeholder_to_pii = seed, pii_to_placeholder = Map.empty,
               entity_counters = (\<lambda>_. 0)\<rparr>"
  from assms have s: "fst (initialise_loop seed (?init, [])) = Inr pm"
    unfolding PlaceholderManager_init_loop by simp
  have "fst (PlaceholderManager_init (Some ?wf))
          = fst (initialise_loop ?wf
                   (\<lparr>placeholder_to_pii = ?wf, pii_to_placeholder = Map.empty,
                     entity_counters = (\<lambda>_. 0)\<rparr>, []))"
    unfolding PlaceholderManager_init_loop by simp
  also have "\<dots> = map_sum id (\<lambda>pm. pm\<lparr>placeholder_to_pii := ?wf\<rparr>)
                      (fst (initialise_loop ?wf (?init, [])))"
    by (rule initialise_loop_p2p_update)
  also have "fst (initialise_loop ?wf (?init, [])) = fst (initialise_loop seed (?init, []))"
    by (rule initialise_loop_filter [symmetric])
  finally show ?thesis unfolding s by simp
qed

text \<open>
  A well-formed key whose number has more than 4300 digits makes \<open>int\<close>, and with it
  the constructor, raise.
\<close>

lemma seeding_oversize_raises:
  "PlaceholderManager_init
     (Some [(py ''<'' @ py ''PERSON'' @ py ''_'' @ replicate 4301 48 @ py ''>'', v)])
     = (Inl ValueError, [])"
proof -
  let ?ds = "replicate 4301 (48 :: codepoint)"
  let ?k = "py ''<'' @ py ''PERSON'' @ py ''_'' @ ?ds @ py ''>''"
  have "is_digit 48" by code_simp
  then have d: "list_all is_digit ?ds" by (simp add: list_all_iff)
  have e: "py ''PERSON'' \<noteq> [] \<and> list_all is_entity_char (py ''PERSON'')" by code_simp
  have m: "placeholder_fullmatch ?k = Some (py ''PERSON'', ?ds)"
    using e by (simp add: placeholder_fullmatch_canonical [OF d])
  have l: "\<not> length ?ds \<le> INT_MAX_STR_DIGITS" by (simp add: INT_MAX_STR_DIGITS_def)
  show ?thesis
    unfolding PlaceholderManager_init_loop by (rule initialise_loop_oversize [OF m l])
qed

text \<open>
  C9, as stated: for each well-formed seed key the reverse index maps (entity type, original
  value) to that key. It fails when two well-formed keys of one entity type hold the same
  value: the later one overwrites the reverse-index entry of the earlier one.
\<close>

theorem seeding_reverse_index_counterexample:
  "placeholder_fullmatch (py ''<PERSON_1>'') = Some (py ''PERSON'', py ''1'')
   \<and> PlaceholderManager_init (Some [(py ''<PERSON_1>'', py ''Ann''), (py ''<PERSON_2>'', py ''Ann'')])
       = (Inr pm_dup, [])
   \<and> pii_to_placeholder pm_dup (py ''PERSON'', py ''Ann'') = Some (py ''<PERSON_2>'')"
proof (intro conjI)
  show m1: "placeholder_fullmatch (py ''<PERSON_1>'') = Some (py ''PERSON'', py ''1'')"
    by code_simp
  have m2: "placeholder_fullmatch (py ''<PERSON_2>'') = Some (py ''PERSON'', py ''2'')"
    by code_simp
  have i1: "int_str (py ''1'') = Inr 1" by code_simp
  have i2: "int_str (py ''2'') = Inr 2" by code_simp
  show "PlaceholderManager_init (Some [(py ''<PERSON_1>'', py ''Ann''), (py ''<PERSON_2>'', py ''Ann'')])
          = (Inr pm_dup, [])"
    unfolding PlaceholderManager_init_def initialise_from_existing_def pm_dup_def
    by (simp add: m1 m2 i1 i2 numeral_2_eq_2)
  show "pii_to_placeholder pm_dup (py ''PERSON'', py ''Ann'') = Some (py ''<PERSON_2>'')"
    by (simp add: pm_dup_def)
qed

text \<open>
  C9, amended. Seeding from a mapping whose well-formed keys have numbers of at most 4300
  digits returns a registry. The mapping is kept as given; the warnings are exactly the seed
  keys that fail the canonical pattern, in order; seeding from the well-formed entries alone
  gives the same registry but for the mapping kept. The reverse index maps a pair (entity
  type, value) to the last well-formed seed key of that entity type holding that value, and
  to nothing when there is none: for a well-formed entry, to its own key unless a later
  entry has the same entity type and value, in which case the last such key wins. For each
  well-formed key the counter of its entity type is at least the parsed number. After any
  calls on the seeded registry, a newly minted placeholder differs from every well-formed
  seed key.
\<close>

theorem seeding_skips_malformed:
  assumes "suffixes_within_limit seed"
  shows "\<exists>pm.
      PlaceholderManager_init (Some seed) = (Inr pm, filter (\<lambda>k. \<not> well_formed k) (map fst seed))
    \<and> placeholder_to_pii pm = seed
    \<and> PlaceholderManager_init (Some (filter (\<lambda>(k, v). well_formed k) seed))
        = (Inr (pm\<lparr>placeholder_to_pii := filter (\<lambda>(k, v). well_formed k) seed\<rparr>), [])
    \<and> (\<forall>e v. pii_to_placeholder pm (e, v)
                = (if seeded_keys seed e v = [] then None
                   else Some (last (seeded_keys seed e v))))
    \<and> (\<forall>(k, v) \<in> set seed. \<forall>e ds. placeholder_fullmatch k = Some (e, ds) \<longrightarrow>
          int_of_digits ds \<le> entity_counters pm e \<and> k \<in> set (seeded_keys seed e v))
    \<and> (\<forall>before k v after e ds.
          seed = before @ (k, v) # after \<and> placeholder_fullmatch k = Some (e, ds) \<longrightarrow>
          pii_to_placeholder pm (e, v)
            = Some (if seeded_keys after e v = [] then k else last (seeded_keys after e v)))
    \<and> (\<forall>(k, v') \<in> set seed. \<forall>calls e v.
          well_formed k \<and> pii_to_placeholder (placeholder_calls calls pm) (e, v) = None
          \<longrightarrow> fst (placeholder_for e v (placeholder_calls calls pm)) \<noteq> k)"
proof -
  let ?wf = "filter (\<lambda>(k, v). well_formed k) seed"
  let ?init = "\<lparr>placeholder_to_pii = seed, pii_to_placeholder = Map.empty,
               entity_counters = (\<lambda>_. 0)\<rparr>"
  from initialise_loop_seeds [OF assms, of ?init "[]"] obtain pm where
    1: "PlaceholderManager_init (Some seed)
          = (Inr pm, filter (\<lambda>k. \<not> well_formed k) (map fst seed))"
    and 2: "placeholder_to_pii pm = seed"
    and i: "\<forall>e v. pii_to_placeholder pm (e, v)
                = (if seeded_keys seed e v = [] then pii_to_placeholder ?init (e, v)
                   else Some (last (seeded_keys seed e v)))"
    and n: "\<forall>k v e ds. (k, v) \<in> set seed \<and> placeholder_fullmatch k = Some (e, ds)
                 \<longrightarrow> int_of_digits ds \<le> entity_counters pm e"
    unfolding PlaceholderManager_init_loop by auto
  have 4: "\<forall>e v. pii_to_placeholder pm (e, v)
                = (if seeded_keys seed e v = [] then None
                   else Some (last (seeded_keys seed e v)))"
    using i by simp
  have 3: "PlaceholderManager_init (Some ?wf) = (Inr (pm\<lparr>placeholder_to_pii := ?wf\<rparr>), [])"
  proof -
    have "suffixes_within_limit ?wf" using assms by (rule suffixes_within_limit_filter)
    from initialise_loop_seeds [OF this, of "\<lparr>placeholder_to_pii = ?wf,
        pii_to_placeholder = Map.empty, entity_counters = (\<lambda>_. 0)\<rparr>" "[]"]
    obtain pmf where
      f: "PlaceholderManager_init (Some ?wf)
            = (Inr pmf, filter (\<lambda>k. \<not> well_formed k) (map fst ?wf))"
      unfolding PlaceholderManager_init_loop by auto
    have "filter (\<lambda>k. \<not> well_formed k) (map fst ?wf) = []"
      by (auto simp: filter_empty_conv)
    with f have f': "PlaceholderManager_init (Some ?wf) = (Inr pmf, [])" by simp
    from PlaceholderManager_init_filter [OF 1] f'
    have "pmf = pm\<lparr>placeholder_to_pii := ?wf\<rparr>" by simp
    with f' show ?thesis by simp
  qed
  have 5: "\<forall>(k, v) \<in> set seed. \<forall>e ds. placeholder_fullmatch k = Some (e, ds) \<longrightarrow>
          int_of_digits ds \<le> entity_counters pm e \<and> k \<in> set (seeded_keys seed e v)"
    using n by (auto simp: seeded_keys_member)
  have 6: "\<forall>before k v after e ds.
          seed = before @ (k, v) # after \<and> placeholder_fullmatch k = Some (e, ds) \<longrightarrow>
          pii_to_placeholder pm (e, v)
            = Some (if seeded_keys after e v = [] then k else last (seeded_keys after e v))"
  proof (intro allI impI)
    fix before k v after e ds
    assume a: "seed = before @ (k, v) # after \<and> placeholder_fullmatch k = Some (e, ds)"
    then have sk: "seeded_keys seed e v
                     = seeded_keys before e v @ k # seeded_keys after e v"
      by (simp add: seeded_keys_append seeded_keys_Cons)
    from 4 have "pii_to_placeholder pm (e, v)
                   = (if seeded_keys seed e v = [] then None
                      else Some (last (seeded_keys seed e v)))"
      by blast
    then show "pii_to_placeholder pm (e, v)
            = Some (if seeded_keys after e v = [] then k else last (seeded_keys after e v))"
      unfolding sk by simp
  qed
  have cov: "counters_cover seed pm" unfolding counters_cover_def using n by blast
  have 7: "\<forall>(k, v') \<in> set seed. \<forall>calls e v.
          well_formed k \<and> pii_to_placeholder (placeholder_calls calls pm) (e, v) = None
          \<longrightarrow> fst (placeholder_for e v (placeholder_calls calls pm)) \<noteq> k"
  proof -
    have "fst (placeholder_for e v (placeholder_calls calls pm)) \<noteq> k"
      if kv: "(k, v') \<in> set seed" and wf: "well_formed k"
        and new: "pii_to_placeholder (placeholder_calls calls pm) (e, v) = None"
      for k v' calls e v
    proof -
      from cov have "counters_cover seed (placeholder_calls calls pm)"
        by (rule counters_cover_calls)
      from minted_not_seeded [OF this new kv wf] show ?thesis .
    qed
    then show ?thesis by blast
  qed
  from 1 2 3 4 5 6 7 show ?thesis by blast
qed

theorem seeding_skips_malformed_witness:
  "\<exists>pm. PlaceholderManager_init (Some seed_ex2) = (Inr pm, [py ''bad''])
      \<and> placeholder_to_pii pm = seed_ex2
      \<and> pii_to_placeholder pm (py ''PERSON'', py ''Ann'') = Some (py ''<PERSON_2>'')
      \<and> pii_to_placeholder pm (py ''URL'', py ''u'') = Some (py ''<URL_0'' @ [0x667] @ py ''>'')
      \<and> 7 \<le> entity_counters pm (py ''URL'')
      \<and> fst (placeholder_for (py ''URL'') (py ''w'') pm) \<noteq> py ''<URL_0'' @ [0x667] @ py ''>''"
proof -
  let ?u = "py ''<URL_0'' @ [0x667] @ py ''>''"
  have h: "suffixes_within_limit seed_ex2" by code_simp
  from seeding_skips_malformed [OF h] obtain pm where
    1: "PlaceholderManager_init (Some seed_ex2)
          = (Inr pm, filter (\<lambda>k. \<not> well_formed k) (map fst seed_ex2))"
    and 2: "placeholder_to_pii pm = seed_ex2"
    and 4: "\<forall>e v. pii_to_placeholder pm (e, v)
                = (if seeded_keys seed_ex2 e v = [] then None
                   else Some (last (seeded_keys seed_ex2 e v)))"
    and 5: "\<forall>(k, v) \<in> set seed_ex2. \<forall>e ds. placeholder_fullmatch k = Some (e, ds) \<longrightarrow>
          int_of_digits ds \<le> entity_counters pm e \<and> k \<in> set (seeded_keys seed_ex2 e v)"
    and 7: "\<forall>(k, v') \<in> set seed_ex2. \<forall>calls e v.
          well_formed k \<and> pii_to_placeholder (placeholder_calls calls pm) (e, v) = None
          \<longrightarrow> fst (placeholder_for e v (placeholder_calls calls pm)) \<noteq> k"
    by blast
  have f: "filter (\<lambda>k. \<not> well_formed k) (map fst seed_ex2) = [py ''bad'']"
    unfolding well_formed_def by code_simp
  have m: "placeholder_fullmatch ?u = Some (py ''URL'', py ''0'' @ [0x667])" by code_simp
  have n: "int_of_digits (py ''0'' @ [0x667]) = 7" by code_simp
  have i: "(?u, py ''u'') \<in> set seed_ex2" by (simp add: seed_ex2_def)
  have s1: "seeded_keys seed_ex2 (py ''PERSON'') (py ''Ann'') = [py ''<PERSON_1>'', py ''<PERSON_2>'']"
    by code_simp
  have s2: "seeded_keys seed_ex2 (py ''URL'') (py ''u'') = [?u]" by code_simp
  have s3: "seeded_keys seed_ex2 (py ''URL'') (py ''w'') = []" by code_simp
  from 1 have a: "PlaceholderManager_init (Some seed_ex2) = (Inr pm, [py ''bad''])"
    unfolding f .
  from 4 have "pii_to_placeholder pm (py ''PERSON'', py ''Ann'')
                 = (if seeded_keys seed_ex2 (py ''PERSON'') (py ''Ann'') = [] then None
                    else Some (last (seeded_keys seed_ex2 (py ''PERSON'') (py ''Ann''))))"
    by blast
  then have b: "pii_to_placeholder pm (py ''PERSON'', py ''Ann'') = Some (py ''<PERSON_2>'')"
    unfolding s1 by simp
  from 4 have "pii_to_placeholder pm (py ''URL'', py ''u'')
                 = (if seeded_keys seed_ex2 (py ''URL'') (py ''u'') = [] then None
                    else Some (last (seeded_keys seed_ex2 (py ''URL'') (py ''u''))))"
    by blast
  then have c: "pii_to_placeholder pm (py ''URL'', py ''u'') = Some ?u"
    unfolding s2 by simp
  from bspec [OF 5 i] m have "int_of_digits (py ''0'' @ [0x667]) \<le> entity_counters pm (py ''URL'')"
    by auto
  then have d: "7 \<le> entity_counters pm (py ''URL'')" unfolding n .
  from 4 have "pii_to_placeholder pm (py ''URL'', py ''w'')
                 = (if seeded_keys seed_ex2 (py ''URL'') (py ''w'') = [] then None
                    else Some (last (seeded_keys seed_ex2 (py ''URL'') (py ''w''))))"
    by blast
  then have nw: "pii_to_placeholder (placeholder_calls [] pm) (py ''URL'', py ''w'') = None"
    unfolding s3 by simp
  have w: "well_formed ?u" unfolding well_formed_def m by simp
  from bspec [OF 7 i]
  have g: "well_formed ?u \<and> pii_to_placeholder (placeholder_calls calls pm) (e, v) = None
          \<longrightarrow> fst (placeholder_for e v (placeholder_calls calls pm)) \<noteq> ?u"
    for calls e v
    by auto
  from g [of "[]" "py ''URL''" "py ''w''"] w nw
  have e: "fst (placeholder_for (py ''URL'') (py ''w'') pm) \<noteq> ?u" by simp
  from a 2 b c d e show ?thesis by blast
qed

section \<open>The offset-tracked rewrite\<close>

lemma slice_to_nonneg: "0 \<le> j \<Longrightarrow> slice_to s j = take (nat j) s"
  by (simp add: slice_to_def py_index_def min_def)

lemma slice_from_nonneg: "0 \<le> i \<Longrightarrow> slice_from s i = drop (nat i) s"
  by (simp add: slice_from_def py_index_def min_def)

lemma slice_nonneg:
  assumes "0 \<le> i" and "i \<le> j"
  shows "slice s i j = take (nat (j - i)) (drop (nat i) s)"
proof -
  let ?n = "length s"
  have e: "slice s i j = take (min ?n (nat j) - min ?n (nat i)) (drop (min ?n (nat i)) s)"
    using assms by (simp add: slice_def py_index_def Let_def)
  have ij: "nat (j - i) = nat j - nat i" using assms by (simp add: nat_diff_distrib)
  show ?thesis
  proof (cases "nat i \<le> ?n")
    case True
    then have d: "min ?n (nat i) = nat i" by simp
    have "take (min ?n (nat j) - nat i) (drop (nat i) s) = take (nat j - nat i) (drop (nat i) s)"
    proof (cases "nat j \<le> ?n")
      case True
      then show ?thesis by simp
    next
      case False
      then have "min ?n (nat j) = ?n" by simp
      moreover from False have "length (drop (nat i) s) \<le> nat j - nat i" by simp
      ultimately show ?thesis by simp
    qed
    then show ?thesis unfolding e d ij .
  next
    case False
    then have "drop (min ?n (nat i)) s = []" "drop (nat i) s = []" by simp_all
    then show ?thesis unfolding e by simp
  qed
qed

lemma ordered_disjoint_chain_aux:
  "list_all (span_ok text) spans \<Longrightarrow>
   sorted_wrt (\<lambda>a b. fst a \<le> fst b \<and> \<not> overlap a b) spans \<Longrightarrow>
   0 \<le> lo \<Longrightarrow> lo \<le> int (length text) \<Longrightarrow> \<forall>p \<in> set spans. lo \<le> fst p \<Longrightarrow>
   chain lo (int (length text)) spans"
proof (induction spans arbitrary: lo)
  case Nil
  then show ?case by simp
next
  case (Cons p spans)
  obtain s e where p: "p = (s, e)" by (cases p)
  from Cons.prems(1) have ok: "0 \<le> s" "s < e" "e \<le> int (length text)"
    and oks: "list_all (span_ok text) spans"
    by (auto simp: p list_all_iff span_ok_def)
  from Cons.prems(2) have srt: "sorted_wrt (\<lambda>a b. fst a \<le> fst b \<and> \<not> overlap a b) spans"
    and hd: "\<forall>q \<in> set spans. s \<le> fst q \<and> \<not> overlap (s, e) q"
    by (simp_all add: p)
  have ge: "\<forall>q \<in> set spans. e \<le> fst q"
  proof
    fix q assume q: "q \<in> set spans"
    with oks have fq: "fst q < snd q" by (simp add: list_all_iff span_ok_def)
    from hd q have h: "s \<le> fst q \<and> \<not> overlap (s, e) q" by blast
    from h fq ok(2) show "e \<le> fst q"
      unfolding overlap_def fst_conv snd_conv by linarith
  qed
  from ok have "0 \<le> e" by simp
  from Cons.IH [OF oks srt this ok(3) ge] Cons.prems(5) ok show ?case by (simp add: p)
qed

lemma ordered_disjoint_chain:
  "ordered_disjoint text spans \<Longrightarrow> chain 0 (int (length text)) spans"
  unfolding ordered_disjoint_def
  by (rule ordered_disjoint_chain_aux) (auto simp: list_all_iff span_ok_def)

lemma span_of_triple: "span_of (s, e, ph) = (s, e)"
  by (simp add: span_of_def)

lemma splice_step_facts:
  assumes pos: "0 \<le> pos" "pos \<le> s" and se: "s \<le> e" and en: "e \<le> int (length text)"
    and P: "int (length P) = pos + offset"
  shows "slice_to (P @ drop (nat pos) text) (s + offset)
           = P @ take (nat (s - pos)) (drop (nat pos) text)"
    and "slice_from (P @ drop (nat pos) text) (e + offset) = drop (nat e) text"
    and "slice (P @ drop (nat pos) text) (s + offset) (e + offset) = slice text s e"
    and "int (length (slice text s e)) = e - s"
    and "int (length (P @ take (nat (s - pos)) (drop (nat pos) text) @ ph))
           = e + (offset + (int (length ph) - (e - s)))"
proof -
  let ?D = "drop (nat pos) text"
  from pos P have so: "0 \<le> s + offset" and lp: "length P = nat (pos + offset)" by linarith+
  from pos P have d1: "nat (s + offset) - length P = nat (s - pos)" by linarith
  from pos se P have d2: "nat (e + offset) - length P = nat (e - pos)" by linarith
  from pos P have g1: "length P \<le> nat (s + offset)" by linarith
  from pos se P have g2: "length P \<le> nat (e + offset)" by linarith
  from pos se have ep: "nat (e - pos) + nat pos = nat e" by linarith
  from pos have sp: "nat (s - pos) + nat pos = nat s" by linarith
  show 1: "slice_to (P @ ?D) (s + offset) = P @ take (nat (s - pos)) ?D"
    using so g1 by (simp add: slice_to_nonneg d1)
  from pos se P have eo: "0 \<le> e + offset" by linarith
  show "slice_from (P @ ?D) (e + offset) = drop (nat e) text"
    using eo g2 by (simp add: slice_from_nonneg d2 ep)
  have "slice (P @ ?D) (s + offset) (e + offset)
          = take (nat (e - s)) (drop (nat (s + offset)) (P @ ?D))"
    using so se by (simp add: slice_nonneg)
  also have "drop (nat (s + offset)) (P @ ?D) = drop (nat s) text"
    using g1 by (simp add: d1 sp)
  also have "take (nat (e - s)) (drop (nat s) text) = slice text s e"
    using pos se by (simp add: slice_nonneg)
  finally show "slice (P @ ?D) (s + offset) (e + offset) = slice text s e" .
  from pos se en show "int (length (slice text s e)) = e - s"
    by (simp add: slice_nonneg)
  from pos se en have "length (take (nat (s - pos)) ?D) = nat (s - pos)" by simp
  then show "int (length (P @ take (nat (s - pos)) ?D @ ph))
           = e + (offset + (int (length ph) - (e - s)))"
    using pos P by simp
qed

lemma address_rewrite_splice:
  assumes "chain pos (int (length text)) (map span_of reps)"
    and "0 \<le> pos" and "int (length P) = pos + offset"
  shows "address_rewrite reps offset (P @ drop (nat pos) text) acc
           = (P @ splice text pos reps, acc @ shifted_spans offset reps)"
  using assms
proof (induction reps arbitrary: pos offset P acc)
  case Nil
  then show ?case by simp
next
  case (Cons r reps)
  obtain s e ph where r: "r = (s, e, ph)" by (cases r)
  from Cons.prems(1) have c: "pos \<le> s" "s < e" "e \<le> int (length text)"
    and rest: "chain e (int (length text)) (map span_of reps)"
    by (simp_all add: r span_of_triple)
  from c have se: "s \<le> e" by simp
  note f = splice_step_facts [OF Cons.prems(2) c(1) se c(3) Cons.prems(3)]
  let ?P' = "P @ take (nat (s - pos)) (drop (nat pos) text) @ ph"
  let ?off' = "offset + (int (length ph) - (e - s))"
  from Cons.prems(2) c have e0: "0 \<le> e" by simp
  have "address_rewrite (r # reps) offset (P @ drop (nat pos) text) acc
          = address_rewrite reps ?off' (?P' @ drop (nat e) text)
              (acc @ [(s + offset, s + offset + int (length ph))])"
    unfolding r by (simp add: Let_def f(1) f(2))
  also have "\<dots> = (?P' @ splice text e reps,
                    (acc @ [(s + offset, s + offset + int (length ph))]) @ shifted_spans ?off' reps)"
    by (rule Cons.IH [OF rest e0 f(5)])
  finally show ?case unfolding r by simp
qed

lemma presidio_rewrite_splice:
  assumes "chain pos (int (length text)) (map (\<lambda>r. (start r, end' r)) chosen)"
    and "0 \<le> pos" and "int (length P) = pos + offset"
  shows "presidio_rewrite chosen offset (P @ drop (nat pos) text) pm
           = (P @ splice text pos (fst (assign_placeholders chosen text pm)),
              snd (assign_placeholders chosen text pm))"
  using assms
proof (induction chosen arbitrary: pos offset P pm)
  case Nil
  then show ?case by simp
next
  case (Cons r chosen)
  let ?s = "start r" and ?e = "end' r"
  from Cons.prems(1) have c: "pos \<le> ?s" "?s < ?e" "?e \<le> int (length text)"
    and rest: "chain ?e (int (length text)) (map (\<lambda>r. (start r, end' r)) chosen)"
    by simp_all
  from c have se: "?s \<le> ?e" by simp
  note f = splice_step_facts [OF Cons.prems(2) c(1) se c(3) Cons.prems(3)]
  obtain ph pm1 where pf: "placeholder_for (entity_type r) (slice text ?s ?e) pm = (ph, pm1)"
    by (cases "placeholder_for (entity_type r) (slice text ?s ?e) pm")
  let ?P' = "P @ take (nat (?s - pos)) (drop (nat pos) text) @ ph"
  let ?off' = "offset + (int (length ph) - (?e - ?s))"
  from Cons.prems(2) c have e0: "0 \<le> ?e" by simp
  have "presidio_rewrite (r # chosen) offset (P @ drop (nat pos) text) pm
          = presidio_rewrite chosen ?off' (?P' @ drop (nat ?e) text) pm1"
    by (simp add: Let_def f(1) f(2) f(3) f(4) pf)
  also have "\<dots> = (?P' @ splice text ?e (fst (assign_placeholders chosen text pm1)),
                    snd (assign_placeholders chosen text pm1))"
    by (rule Cons.IH [OF rest e0 f(5)])
  finally show ?case by (simp add: pf split: prod.splits)
qed

lemma splice_length:
  "chain pos (int (length text)) (map span_of reps) \<Longrightarrow> 0 \<le> pos \<Longrightarrow>
   int (length (splice text pos reps))
     = int (length text) - pos + (\<Sum>(s, e, ph) \<leftarrow> reps. int (length ph) - (e - s))"
proof (induction reps arbitrary: pos)
  case Nil
  then show ?case by simp
next
  case (Cons r reps)
  obtain s e ph where r: "r = (s, e, ph)" by (cases r)
  from Cons.prems(1) have c: "pos \<le> s" "s < e" "e \<le> int (length text)"
    and rest: "chain e (int (length text)) (map span_of reps)"
    by (simp_all add: r span_of_triple)
  from Cons.prems(2) c have e0: "0 \<le> e" by simp
  from Cons.prems(2) c have "length (take (nat (s - pos)) (drop (nat pos) text)) = nat (s - pos)"
    by simp
  with Cons.IH [OF rest e0] c show ?case unfolding r by simp
qed

lemma assign_placeholders_spans:
  "map span_of (fst (assign_placeholders chosen text pm)) = map (\<lambda>r. (start r, end' r)) chosen"
proof (induction chosen arbitrary: pm)
  case Nil
  then show ?case by simp
next
  case (Cons r chosen)
  obtain ph pm1 where pf:
    "placeholder_for (entity_type r) (slice text (start r) (end' r)) pm = (ph, pm1)"
    by (cases "placeholder_for (entity_type r) (slice text (start r) (end' r)) pm")
  obtain reps pm2 where as: "assign_placeholders chosen text pm1 = (reps, pm2)"
    by (cases "assign_placeholders chosen text pm1")
  from Cons.IH [of pm1] as have "map span_of reps = map (\<lambda>r. (start r, end' r)) chosen"
    by simp
  then show ?case by (simp add: pf as span_of_triple)
qed

text \<open>
  C5. Applied to a text with an ordered, pairwise-disjoint list of spans that satisfy the
  span invariant, each rewrite loop (the address pass's and the general pass's) returns the
  text in which every span is replaced by its placeholder and every other character is copied
  in place and order, and the length of the result is the length of the text plus the sum of
  \<open>len(placeholder) - (end - start)\<close> over the spans. The address pass also reports where
  its placeholders lie in the result.
\<close>

theorem rewrite_length_and_frame:
  "(ordered_disjoint text (map span_of reps) \<longrightarrow>
      fst (address_rewrite reps 0 text []) = splice text 0 reps
      \<and> snd (address_rewrite reps 0 text []) = shifted_spans 0 reps
      \<and> int (length (fst (address_rewrite reps 0 text [])))
          = int (length text) + (\<Sum>(s, e, ph) \<leftarrow> reps. int (length ph) - (e - s)))
   \<and> (ordered_disjoint text (map (\<lambda>r. (start r, end' r)) chosen) \<longrightarrow>
      fst (presidio_rewrite chosen 0 text pm)
          = splice text 0 (fst (assign_placeholders chosen text pm))
      \<and> int (length (fst (presidio_rewrite chosen 0 text pm)))
          = int (length text)
            + (\<Sum>(s, e, ph) \<leftarrow> fst (assign_placeholders chosen text pm).
                 int (length ph) - (e - s)))"
proof (intro conjI impI)
  assume od: "ordered_disjoint text (map span_of reps)"
  then have ch: "chain 0 (int (length text)) (map span_of reps)"
    by (rule ordered_disjoint_chain)
  have "address_rewrite reps 0 ([] @ drop (nat 0) text) []
          = ([] @ splice text 0 reps, [] @ shifted_spans 0 reps)"
    by (rule address_rewrite_splice [OF ch]) simp_all
  then have eq: "address_rewrite reps 0 text [] = (splice text 0 reps, shifted_spans 0 reps)"
    by simp
  show "fst (address_rewrite reps 0 text []) = splice text 0 reps" by (simp add: eq)
  show "snd (address_rewrite reps 0 text []) = shifted_spans 0 reps" by (simp add: eq)
  show "int (length (fst (address_rewrite reps 0 text [])))
          = int (length text) + (\<Sum>(s, e, ph) \<leftarrow> reps. int (length ph) - (e - s))"
    using splice_length [OF ch] by (simp add: eq)
next
  let ?reps = "fst (assign_placeholders chosen text pm)"
  assume od: "ordered_disjoint text (map (\<lambda>r. (start r, end' r)) chosen)"
  then have ch: "chain 0 (int (length text)) (map (\<lambda>r. (start r, end' r)) chosen)"
    by (rule ordered_disjoint_chain)
  then have ch': "chain 0 (int (length text)) (map span_of ?reps)"
    by (simp add: assign_placeholders_spans)
  have "presidio_rewrite chosen 0 ([] @ drop (nat 0) text) pm
          = ([] @ splice text 0 ?reps, snd (assign_placeholders chosen text pm))"
    by (rule presidio_rewrite_splice [OF ch]) simp_all
  then have eq: "fst (presidio_rewrite chosen 0 text pm) = splice text 0 ?reps"
    by simp
  show "fst (presidio_rewrite chosen 0 text pm) = splice text 0 ?reps" by (rule eq)
  show "int (length (fst (presidio_rewrite chosen 0 text pm)))
          = int (length text) + (\<Sum>(s, e, ph) \<leftarrow> ?reps. int (length ph) - (e - s))"
    using splice_length [OF ch'] by (simp add: eq)
qed

theorem rewrite_length_and_frame_witness:
  "fst (address_rewrite [(11, 19, py ''<LOCATION_1>'')] 0 (py ''My name is John Doe.'') [])
     = py ''My name is <LOCATION_1>.''
   \<and> snd (address_rewrite [(11, 19, py ''<LOCATION_1>'')] 0 (py ''My name is John Doe.'') [])
     = [(11, 23)]
   \<and> int (length (fst (address_rewrite [(11, 19, py ''<LOCATION_1>'')] 0
                        (py ''My name is John Doe.'') []))) = 20 + (12 - (19 - 11))
   \<and> fst (presidio_rewrite [res_john] 0 (py ''My name is John Doe.'') pm_fresh)
     = py ''My name is <PERSON_1>.''
   \<and> int (length (fst (presidio_rewrite [res_john] 0 (py ''My name is John Doe.'') pm_fresh)))
     = 20 + (10 - (19 - 11))"
proof -
  let ?T = "py ''My name is John Doe.''"
  let ?R = "[(11, 19, py ''<LOCATION_1>'')] :: (int \<times> int \<times> pystr) list"
  note t = rewrite_length_and_frame [of ?T ?R "[res_john]" pm_fresh]
  have h1: "ordered_disjoint ?T (map span_of ?R)"
    by (simp add: py_simps ordered_disjoint_def span_ok_def span_of_def)
  have h2: "ordered_disjoint ?T (map (\<lambda>r. (start r, end' r)) [res_john])"
    by (simp add: py_simps ordered_disjoint_def span_ok_def res_john_def)
  have a: "fst (assign_placeholders [res_john] ?T pm_fresh) = [(11, 19, py ''<PERSON_1>'')]"
    by code_simp
  from t h1 have 1: "fst (address_rewrite ?R 0 ?T []) = splice ?T 0 ?R"
    and 2: "snd (address_rewrite ?R 0 ?T []) = shifted_spans 0 ?R"
    and 3: "int (length (fst (address_rewrite ?R 0 ?T [])))
              = int (length ?T) + (\<Sum>(s, e, ph) \<leftarrow> ?R. int (length ph) - (e - s))"
    by blast+
  from t h2 have 4: "fst (presidio_rewrite [res_john] 0 ?T pm_fresh)
                       = splice ?T 0 (fst (assign_placeholders [res_john] ?T pm_fresh))"
    and 5: "int (length (fst (presidio_rewrite [res_john] 0 ?T pm_fresh)))
              = int (length ?T) + (\<Sum>(s, e, ph) \<leftarrow> fst (assign_placeholders [res_john] ?T pm_fresh).
                   int (length ph) - (e - s))"
    by blast+
  have s1: "splice ?T 0 ?R = py ''My name is <LOCATION_1>.''"
    by code_simp
  have s2: "splice ?T 0 [(11, 19, py ''<PERSON_1>'')] = py ''My name is <PERSON_1>.''"
    by code_simp
  from 1 have c1: "fst (address_rewrite ?R 0 ?T []) = py ''My name is <LOCATION_1>.''"
    unfolding s1 .
  from 2 have c2: "snd (address_rewrite ?R 0 ?T []) = [(11, 23)]"
    by (simp add: py_simps)
  from 3 have c3: "int (length (fst (address_rewrite ?R 0 ?T []))) = 20 + (12 - (19 - 11))"
    by (simp add: py_simps)
  from 4 have c4: "fst (presidio_rewrite [res_john] 0 ?T pm_fresh) = py ''My name is <PERSON_1>.''"
    unfolding a s2 .
  from 5 have c5: "int (length (fst (presidio_rewrite [res_john] 0 ?T pm_fresh)))
                     = 20 + (10 - (19 - 11))"
    unfolding a by (simp add: py_simps)
  from c1 c2 c3 c4 c5 show ?thesis by blast
qed


end
